theory Spec2Isabelle
  imports Main "HOL-Library.Word"
begin

unbundle bit_operations_syntax

section \<open>The CBOR decoder of \<^verbatim>\<open>src/decoder.c\<close>\<close>

text \<open>
  The decoder is embedded function by function. The build that is modelled is the default
  one: \<^verbatim>\<open>CBOR_BIG_ENDIAN\<close> is not defined (so \<^verbatim>\<open>copy_data\<close> is \<^verbatim>\<open>copy_data_le\<close>), the host
  is little-endian, and \<^verbatim>\<open>size_t\<close>, \<^verbatim>\<open>unsigned long\<close> and \<^verbatim>\<open>uint64_t\<close> are 64 bits wide
  (the code shifts \<^verbatim>\<open>1lu\<close> by up to 63).

  \<^item> \<^verbatim>\<open>uint8_t\<close> is \<open>8 word\<close> and \<^verbatim>\<open>uint64_t\<close> is \<open>64 word\<close>: their arithmetic wraps.
  \<^item> \<^verbatim>\<open>size_t\<close> values (sizes, cursors, counts) are \<open>nat\<close>. Every subtraction of two
    \<^verbatim>\<open>size_t\<close> values goes through \<open>size_sub\<close>, which writes out the wrap-around modulo
    \<open>2 ^ 64\<close>. Cursors only grow by amounts bounded by the buffer sizes, so additions
    are plain.
  \<^item> A pointer into memory is a byte list together with an offset. A store is a list
    update.
  \<^item> Each handler takes the context and returns the error code together with the
    updated context.
\<close>

type_synonym u8 = "8 word"
type_synonym u64 = "64 word"

subsection \<open>Declarations of \<^verbatim>\<open>cbor/cbor.h\<close>\<close>

text \<open>
  Modelled from the spec: the header \<^verbatim>\<open>cbor/cbor.h\<close> is not part of the sources. It
  declares the result codes, which the specification lists as Success, Malformed
  (\<open>CBOR_ILLEGAL\<close>), Unsupported (\<open>CBOR_INVALID\<close>), Overrun, OutputExhausted
  (\<open>CBOR_UNDERRUN\<close>), Break and Excessive, mutually exclusive. The constant
  \<^verbatim>\<open>CBOR_RECURSION_MAX_LEVEL\<close> of the same header is the parameter \<open>lvl\<close> of the
  functions below.
\<close>

datatype cbor_error_t =
    CBOR_SUCCESS
  | CBOR_ILLEGAL
  | CBOR_INVALID
  | CBOR_OVERRUN
  | CBOR_UNDERRUN
  | CBOR_BREAK
  | CBOR_EXCESSIVE

subsection \<open>Macros and the context\<close>

definition INDEFINITE_VALUE :: u8 where
  "INDEFINITE_VALUE = - 1"

definition RESERVED_VALUE :: u8 where
  "RESERVED_VALUE = - 2"

definition ADDITIONAL_INFO_MASK :: u8 where
  "ADDITIONAL_INFO_MASK = 0x1f"

definition get_major_type :: "u8 \<Rightarrow> u8" where
  "get_major_type data_item = drop_bit 5 data_item"

definition get_additional_info :: "u8 \<Rightarrow> u8" where
  "get_additional_info major_type = major_type AND ADDITIONAL_INFO_MASK"

definition size_sub :: "nat \<Rightarrow> nat \<Rightarrow> nat" where
  "size_sub a b = (if b \<le> a then a - b else a + 2 ^ 64 - b)"

record decode_context =
  buf :: "u8 list"
  bufsize :: nat
  bufidx :: nat
  msg :: "u8 list"
  msgsize :: nat
  msgidx :: nat
  major_type :: u8
  additional_info :: u8
  following_bytes :: u8
  recursion_depth :: u8

subsection \<open>Byte copies\<close>

text \<open>
  \<open>copy_data_le dst d src s len\<close> is the call \<^verbatim>\<open>copy_data_le(&dst[d], &src[s], len)\<close>: the
  loop runs \<open>i\<close> from \<open>0\<close> to \<open>len - 1\<close> and stores \<^verbatim>\<open>src[i]\<close> at \<^verbatim>\<open>dst[len - i - 1]\<close>.
\<close>

definition copy_data_le :: "u8 list \<Rightarrow> nat \<Rightarrow> u8 list \<Rightarrow> nat \<Rightarrow> nat \<Rightarrow> u8 list" where
  "copy_data_le dst d src s len =
     fold (\<lambda>i mem. mem[d + (len - i - 1) := src ! (s + i)]) [0..<len] dst"

definition copy_data_be :: "u8 list \<Rightarrow> nat \<Rightarrow> u8 list \<Rightarrow> nat \<Rightarrow> nat \<Rightarrow> u8 list" where
  "copy_data_be dst d src s len =
     fold (\<lambda>i mem. mem[d + i := src ! (s + i)]) [0..<len] dst"

definition copy_data :: "u8 list \<Rightarrow> nat \<Rightarrow> u8 list \<Rightarrow> nat \<Rightarrow> nat \<Rightarrow> u8 list" where
  "copy_data dst d src s len = copy_data_le dst d src s len"

text \<open>
  A \<^verbatim>\<open>uint64_t\<close> local whose address is taken is eight bytes of memory; on the
  little-endian host the byte at the lowest address is the least significant.
\<close>

fun u64_of_bytes :: "u8 list \<Rightarrow> u64" where
  "u64_of_bytes [] = 0"
| "u64_of_bytes (b # bs) = ucast b OR push_bit 8 (u64_of_bytes bs)"

definition bytes_of_u64 :: "u64 \<Rightarrow> u8 list" where
  "bytes_of_u64 v = map (\<lambda>i. ucast (drop_bit (8 * i) v)) [0..<8]"

subsection \<open>Header classifier and bounds validator\<close>

definition get_following_bytes :: "u8 \<Rightarrow> u8" where
  "get_following_bytes ai =
     (if ai < 24 then 0
      else if ai = 31 then INDEFINITE_VALUE
      else if ai \<ge> 28 then RESERVED_VALUE
      else push_bit (unat ai - 24) 1)"

text \<open>
  The C function returns a flag and stores the error through a pointer only when it
  fails: \<open>None\<close> is the return value \<^verbatim>\<open>true\<close> (nothing stored), \<open>Some e\<close> is \<^verbatim>\<open>false\<close> with
  \<open>e\<close> stored.
\<close>

definition has_valid_buffers_for_following_bytes :: "decode_context \<Rightarrow> cbor_error_t option" where
  "has_valid_buffers_for_following_bytes ctx =
     (if following_bytes ctx = RESERVED_VALUE then Some CBOR_ILLEGAL
      else if following_bytes ctx = INDEFINITE_VALUE then None
      else if unat (following_bytes ctx) + 1 > size_sub (msgsize ctx) (msgidx ctx)
        then Some CBOR_ILLEGAL
      else if unat (following_bytes ctx) > size_sub (bufsize ctx) (bufidx ctx)
        then Some CBOR_UNDERRUN
      else None)"

subsection \<open>Scalar and string handlers\<close>

definition do_unsigned_integer :: "decode_context \<Rightarrow> cbor_error_t \<times> decode_context" where
  "do_unsigned_integer ctx =
     (let m = msgidx ctx; b = bufidx ctx in
      if following_bytes ctx = INDEFINITE_VALUE then (CBOR_ILLEGAL, ctx)
      else
        let ctx1 = (if following_bytes ctx = 0
                    then ctx\<lparr>buf := (buf ctx)[b := additional_info ctx],
                             bufidx := bufidx ctx + 1\<rparr>
                    else ctx);
            ctx2 = ctx1\<lparr>buf := copy_data (buf ctx1) b (msg ctx1) (m + 1)
                                  (unat (following_bytes ctx1))\<rparr>;
            ctx3 = ctx2\<lparr>bufidx := bufidx ctx2 + unat (following_bytes ctx2)\<rparr>;
            ctx4 = ctx3\<lparr>msgidx := msgidx ctx3 + (unat (following_bytes ctx3) + 1)\<rparr>
        in (CBOR_SUCCESS, ctx4))"

text \<open>
  The loop of \<^verbatim>\<open>do_negative_integer\<close> that stores \<^verbatim>\<open>0xff\<close> at \<^verbatim>\<open>buf[0]\<close> .. \<^verbatim>\<open>buf[n - 1]\<close>,
  where \<^verbatim>\<open>buf\<close> points at offset \<open>d\<close>.
\<close>

definition fill_ff :: "u8 list \<Rightarrow> nat \<Rightarrow> nat \<Rightarrow> u8 list" where
  "fill_ff dst d n = fold (\<lambda>i mem. mem[d + i := 0xff]) [0..<n] dst"

text \<open>
  In the promotion branch \<open>data_type_size\<close> is below 8, so doubling it does not leave
  \<^verbatim>\<open>uint8_t\<close> and the \<^verbatim>\<open>int\<close> difference \<^verbatim>\<open>data_type_size - data_size\<close> is not negative.
\<close>

definition do_negative_integer :: "decode_context \<Rightarrow> cbor_error_t \<times> decode_context" where
  "do_negative_integer ctx =
     (let buf_start_index = bufidx ctx in
      case do_unsigned_integer ctx of (err, ctx1) \<Rightarrow>
        if err \<noteq> CBOR_SUCCESS then (err, ctx1)
        else
          let data_size = (of_nat (size_sub (bufidx ctx1) buf_start_index) :: u8);
              data_type_size = data_size;
              msb_bit = data_size * 8 - 1;
              val = u64_of_bytes (copy_data_be (replicate 8 0) 0 (buf ctx1) buf_start_index
                                    (unat data_size));
              promote = (unat data_type_size < 8 \<and> val AND push_bit (unat msb_bit) 1 \<noteq> 0);
              data_type_size' = (if promote then push_bit 1 data_type_size else data_type_size);
              ctx2 = (if promote
                      then ctx1\<lparr>bufidx := bufidx ctx1 + (unat data_type_size' - unat data_size)\<rparr>
                      else ctx1);
              val' = NOT val;
              ctx3 = ctx2\<lparr>buf := fill_ff (buf ctx2) buf_start_index
                                    (min (size_sub (bufsize ctx2) buf_start_index) 4)\<rparr>;
              ctx4 = ctx3\<lparr>buf := copy_data_be (buf ctx3) buf_start_index (bytes_of_u64 val') 0
                                    (unat data_size)\<rparr>
          in (CBOR_SUCCESS, ctx4))"

definition go_get_item_length :: "decode_context \<Rightarrow> nat \<times> decode_context" where
  "go_get_item_length ctx =
     (let m = msgidx ctx;
          (len, offset) =
            (if following_bytes ctx = INDEFINITE_VALUE then (0, 0)
             else if following_bytes ctx = 0 then (unat (additional_info ctx), 0)
             else (unat (u64_of_bytes (copy_data (replicate 8 0) 0 (msg ctx) (m + 1)
                                         (unat (following_bytes ctx)))),
                   unat (following_bytes ctx)))
      in (len, ctx\<lparr>msgidx := msgidx ctx + (offset + 1)\<rparr>))"

definition do_string :: "decode_context \<Rightarrow> cbor_error_t \<times> decode_context" where
  "do_string ctx =
     (case go_get_item_length ctx of (len, ctx1) \<Rightarrow>
        let m = msgidx ctx1; b = bufidx ctx1;
            maxlen = min (size_sub (bufsize ctx1) (bufidx ctx1))
                         (size_sub (msgsize ctx1) (msgidx ctx1))
        in if len > maxlen then (CBOR_ILLEGAL, ctx1)
           else
             let ctx2 = ctx1\<lparr>buf := fold (\<lambda>i mem. mem[b + i := msg ctx1 ! (m + i)])
                                        [0..<len] (buf ctx1)\<rparr>;
                 ctx3 = ctx2\<lparr>bufidx := bufidx ctx2 + len\<rparr>;
                 ctx4 = ctx3\<lparr>msgidx := msgidx ctx3 + len\<rparr>
             in (CBOR_SUCCESS, ctx4))"

definition do_tag :: "decode_context \<Rightarrow> cbor_error_t \<times> decode_context" where
  "do_tag ctx = (CBOR_INVALID, ctx)"

definition get_simple_value :: "u8 \<Rightarrow> u8" where
  "get_simple_value val =
     (if val = 20 then 0
      else if val = 21 then 1
      else if val = 22 then 0
      else val)"

definition do_float_and_other :: "decode_context \<Rightarrow> cbor_error_t \<times> decode_context" where
  "do_float_and_other ctx =
     (if following_bytes ctx = INDEFINITE_VALUE
      then (CBOR_BREAK, ctx\<lparr>msgidx := msgidx ctx + 1\<rparr>)
      else
        let ctx1 = (if following_bytes ctx = 1
                    then ctx\<lparr>following_bytes := 0,
                             msgidx := msgidx ctx + 1,
                             additional_info := msg ctx ! (msgidx ctx + 1)\<rparr>
                    else ctx)
        in case has_valid_buffers_for_following_bytes ctx1 of
             Some e \<Rightarrow> (e, ctx1)
           | None \<Rightarrow>
               (case do_unsigned_integer ctx1 of (err, ctx2) \<Rightarrow>
                  let ctx3 = (if following_bytes ctx2 = 0
                              then ctx2\<lparr>buf := (buf ctx2)[bufidx ctx2 - 1 :=
                                         get_simple_value (buf ctx2 ! (bufidx ctx2 - 1))]\<rparr>
                              else ctx2)
                  in (err, ctx3)))"

subsection \<open>The decode loop\<close>

text \<open>
  \<open>decode_loop\<close> is the \<^verbatim>\<open>while\<close> loop of \<^verbatim>\<open>decode_cbor\<close>, with the locals \<^verbatim>\<open>item\<close> and
  \<^verbatim>\<open>err\<close> as arguments; \<open>callbacks lvl mt\<close> is the table entry \<^verbatim>\<open>callbacks[mt]\<close>. The major
  type is three bits, so the table index is at most 7.
\<close>

function decode_cbor :: "nat \<Rightarrow> decode_context \<Rightarrow> nat \<Rightarrow> cbor_error_t \<times> decode_context"
  and decode_loop :: "nat \<Rightarrow> decode_context \<Rightarrow> nat \<Rightarrow> nat \<Rightarrow> cbor_error_t
                        \<Rightarrow> cbor_error_t \<times> decode_context"
  and callbacks :: "nat \<Rightarrow> u8 \<Rightarrow> decode_context \<Rightarrow> cbor_error_t \<times> decode_context"
  and do_recursive :: "nat \<Rightarrow> decode_context \<Rightarrow> cbor_error_t \<times> decode_context"
where
  "decode_cbor lvl ctx maxitem =
     (let ctx1 = ctx\<lparr>recursion_depth := recursion_depth ctx + 1\<rparr> in
      if unat (recursion_depth ctx1) > lvl then (CBOR_EXCESSIVE, ctx1)
      else
        case decode_loop lvl ctx1 maxitem 0 CBOR_SUCCESS of (err, ctx2) \<Rightarrow>
          (err, ctx2\<lparr>recursion_depth := recursion_depth ctx2 - 1\<rparr>))"
| "decode_loop lvl ctx maxitem item err =
     (if msgidx ctx < msgsize ctx \<and> bufidx ctx < bufsize ctx then
        let hdr = msg ctx ! msgidx ctx;
            ctx1 = ctx\<lparr>major_type := get_major_type hdr,
                       additional_info := get_additional_info hdr,
                       following_bytes := get_following_bytes (get_additional_info hdr)\<rparr>
        in case has_valid_buffers_for_following_bytes ctx1 of
             Some e \<Rightarrow> (e, ctx1)
           | None \<Rightarrow>
               (case callbacks lvl (major_type ctx1) ctx1 of (err1, ctx2) \<Rightarrow>
                  if err1 = CBOR_BREAK \<and> msgidx ctx2 = msgsize ctx2 then (err1, ctx2)
                  else if err1 \<noteq> CBOR_BREAK \<and> err1 \<noteq> CBOR_SUCCESS then (err1, ctx2)
                  else if item + 1 \<ge> maxitem \<and> maxitem > 0 then (CBOR_SUCCESS, ctx2)
                  else decode_loop lvl ctx2 maxitem (item + 1) CBOR_SUCCESS)
      else (err, ctx))"
| "callbacks lvl mt ctx =
     (if mt = 0 then do_unsigned_integer ctx
      else if mt = 1 then do_negative_integer ctx
      else if mt = 2 then do_string ctx
      else if mt = 3 then do_string ctx
      else if mt = 4 then do_recursive lvl ctx
      else if mt = 5 then do_recursive lvl ctx
      else if mt = 6 then do_tag ctx
      else do_float_and_other ctx)"
| "do_recursive lvl ctx =
     (case go_get_item_length ctx of (len, ctx1) \<Rightarrow> decode_cbor lvl ctx1 len)"
  by pat_completeness auto


subsection \<open>Entry point\<close>

text \<open>
  \<open>cbor_decode lvl out bufsz inp msgsz\<close> is the call
  \<^verbatim>\<open>cbor_decode(out, bufsz, inp, msgsz)\<close> of a build with
  \<^verbatim>\<open>CBOR_RECURSION_MAX_LEVEL = lvl\<close>. Beside the returned code it gives the local context
  as it is when the function returns: its \<open>buf\<close> is the caller's output memory after
  the call, and its cursors are what the final checks of the function read.
  \<open>initial_context\<close> is the designated initialiser of the local \<^verbatim>\<open>ctx\<close>: the fields it
  does not name are zero.
\<close>

definition initial_context :: "u8 list \<Rightarrow> nat \<Rightarrow> u8 list \<Rightarrow> nat \<Rightarrow> decode_context" where
  "initial_context out bufsz inp msgsz =
     \<lparr>buf = out, bufsize = bufsz, bufidx = 0,
      msg = inp, msgsize = msgsz, msgidx = 0,
      major_type = 0, additional_info = 0, following_bytes = 0,
      recursion_depth = 0\<rparr>"

definition cbor_decode ::
  "nat \<Rightarrow> u8 list \<Rightarrow> nat \<Rightarrow> u8 list \<Rightarrow> nat \<Rightarrow> cbor_error_t \<times> decode_context" where
  "cbor_decode lvl out bufsz inp msgsz =
     (let ctx = initial_context out bufsz inp msgsz
      in case decode_cbor lvl ctx 0 of (err, ctx') \<Rightarrow>
           (if err = CBOR_SUCCESS
            then (if msgidx ctx' < msgsize ctx' then CBOR_OVERRUN
                  else if bufidx ctx' < bufsize ctx' then CBOR_UNDERRUN
                  else err)
            else err,
            ctx'))"

subsection \<open>Notions used to state the properties\<close>

text \<open>
  \<open>read_header ctx\<close> is the context after the three assignments at the top of the loop
  body of \<^verbatim>\<open>decode_cbor\<close>.
\<close>

definition read_header :: "decode_context \<Rightarrow> decode_context" where
  "read_header ctx =
     ctx\<lparr>major_type := get_major_type (msg ctx ! msgidx ctx),
         additional_info := get_additional_info (msg ctx ! msgidx ctx),
         following_bytes := get_following_bytes (get_additional_info (msg ctx ! msgidx ctx))\<rparr>"

text \<open>
  \<open>same_frame ctx c\<close>: going from \<open>ctx\<close> to \<open>c\<close> the input, both sizes and the length of the
  output memory are unchanged, and so is every output byte at or beyond the capacity.
\<close>

definition same_frame :: "decode_context \<Rightarrow> decode_context \<Rightarrow> bool" where
  "same_frame ctx c \<longleftrightarrow>
     msg c = msg ctx \<and> msgsize c = msgsize ctx \<and> bufsize c = bufsize ctx \<and>
     length (buf c) = length (buf ctx) \<and>
     drop (bufsize ctx) (buf c) = drop (bufsize ctx) (buf ctx)"



text \<open>
  \<open>loop_reaches lvl ctx maxitem item c\<close>: the loop of \<^verbatim>\<open>decode_cbor\<close>, standing at the head
  of an iteration in state \<open>ctx\<close> with the locals \<open>maxitem\<close> and \<open>item\<close>, comes to the head
  of an iteration in state \<open>c\<close>, in this call or in a nested one. The head of an
  iteration is the point where the loop condition is evaluated. \<open>here\<close> is that point
  itself; \<open>next_item\<close> is one turn of the loop that ends without a \<^verbatim>\<open>break\<close>; \<open>nested\<close>
  is the call of \<^verbatim>\<open>decode_cbor\<close> that \<^verbatim>\<open>do_recursive\<close> makes for an array or a map, past
  the depth check. The relation is made executable.
\<close>

inductive loop_reaches :: "nat \<Rightarrow> decode_context \<Rightarrow> nat \<Rightarrow> nat \<Rightarrow> decode_context \<Rightarrow> bool"
  for lvl :: nat
where
  here: "loop_reaches lvl ctx maxitem item ctx"
| next_item:
    "msgidx ctx < msgsize ctx \<Longrightarrow> bufidx ctx < bufsize ctx \<Longrightarrow>
     has_valid_buffers_for_following_bytes (read_header ctx) = None \<Longrightarrow>
     callbacks lvl (major_type (read_header ctx)) (read_header ctx) = (e, c2) \<Longrightarrow>
     e = CBOR_SUCCESS \<or> (e = CBOR_BREAK \<and> msgidx c2 \<noteq> msgsize c2) \<Longrightarrow>
     \<not> (maxitem \<le> item + 1 \<and> 0 < maxitem) \<Longrightarrow>
     loop_reaches lvl c2 maxitem (item + 1) c \<Longrightarrow>
     loop_reaches lvl ctx maxitem item c"
| nested:
    "msgidx ctx < msgsize ctx \<Longrightarrow> bufidx ctx < bufsize ctx \<Longrightarrow>
     has_valid_buffers_for_following_bytes (read_header ctx) = None \<Longrightarrow>
     major_type (read_header ctx) = 4 \<or> major_type (read_header ctx) = 5 \<Longrightarrow>
     go_get_item_length (read_header ctx) = (len, c1) \<Longrightarrow>
     \<not> lvl < unat (recursion_depth c1 + 1) \<Longrightarrow>
     loop_reaches lvl (c1\<lparr>recursion_depth := recursion_depth c1 + 1\<rparr>) len 0 c \<Longrightarrow>
     loop_reaches lvl ctx maxitem item c"

code_pred loop_reaches .

text \<open>
  \<open>decode_reaches lvl out bufsz inp msgsz c\<close>: the call
  \<^verbatim>\<open>cbor_decode(out, bufsz, inp, msgsz)\<close> comes to the head of a loop iteration in state
  \<open>c\<close>, at any nesting depth.
\<close>

definition decode_reaches ::
  "nat \<Rightarrow> u8 list \<Rightarrow> nat \<Rightarrow> u8 list \<Rightarrow> nat \<Rightarrow> decode_context \<Rightarrow> bool" where
  "decode_reaches lvl out bufsz inp msgsz c \<longleftrightarrow>
     (let ctx = initial_context out bufsz inp msgsz in
      \<not> lvl < unat (recursion_depth ctx + 1) \<and>
      loop_reaches lvl (ctx\<lparr>recursion_depth := recursion_depth ctx + 1\<rparr>) 0 0 c)"

text \<open>
  \<open>at_break_end c\<close>: the whole input has been read and its last byte is the break marker.
\<close>

definition at_break_end :: "decode_context \<Rightarrow> bool" where
  "at_break_end c \<longleftrightarrow>
     msgidx c = msgsize c \<and> 0 < msgidx c \<and> msg c ! (msgidx c - 1) = 0xff"




subsection \<open>Termination of the decode loop\<close>

text \<open>
  No handler changes the message size or moves the read cursor backwards, and a handler
  that returns Success or Break has consumed at least the header byte. So the number of
  unread input bytes decreases around the loop and into every nested call.
\<close>

lemma do_unsigned_integer_msg:
  assumes "do_unsigned_integer ctx = (e, c)"
  shows "msgsize c = msgsize ctx \<and> msgidx ctx \<le> msgidx c \<and> (e = CBOR_SUCCESS \<or> e = CBOR_BREAK \<longrightarrow> msgidx ctx < msgidx c)"
  using assms by (auto simp: do_unsigned_integer_def Let_def split: if_splits)

lemma do_negative_integer_msg:
  assumes "do_negative_integer ctx = (e, c)"
  shows "msgsize c = msgsize ctx \<and> msgidx ctx \<le> msgidx c \<and> (e = CBOR_SUCCESS \<or> e = CBOR_BREAK \<longrightarrow> msgidx ctx < msgidx c)"
proof (cases "do_unsigned_integer ctx")
  case (Pair e1 c1)
  from do_unsigned_integer_msg [OF Pair] assms Pair show ?thesis
    by (auto simp: do_negative_integer_def Let_def split: if_splits)
qed

lemma go_get_item_length_msg:
  assumes "go_get_item_length ctx = (len, c)"
  shows "msgsize c = msgsize ctx \<and> msgidx ctx < msgidx c"
  using assms by (auto simp: go_get_item_length_def Let_def split: if_splits)

lemma do_string_msg:
  assumes "do_string ctx = (e, c)"
  shows "msgsize c = msgsize ctx \<and> msgidx ctx < msgidx c"
proof (cases "go_get_item_length ctx")
  case (Pair len c1)
  from go_get_item_length_msg [OF Pair] assms Pair show ?thesis
    by (auto simp: do_string_def Let_def split: if_splits)
qed

lemma do_float_and_other_msg:
  assumes "do_float_and_other ctx = (e, c)"
  shows "msgsize c = msgsize ctx \<and> msgidx ctx \<le> msgidx c \<and>
         (e = CBOR_SUCCESS \<or> e = CBOR_BREAK \<longrightarrow> msgidx ctx < msgidx c)"
proof (cases "following_bytes ctx = INDEFINITE_VALUE")
  case True
  with assms show ?thesis by (auto simp: do_float_and_other_def)
next
  case False
  define ctx1 where "ctx1 = (if following_bytes ctx = 1
                    then ctx\<lparr>following_bytes := 0,
                             msgidx := msgidx ctx + 1,
                             additional_info := msg ctx ! (msgidx ctx + 1)\<rparr>
                    else ctx)"
  have c1: "msgsize ctx1 = msgsize ctx \<and> msgidx ctx \<le> msgidx ctx1"
    by (simp add: ctx1_def)
  show ?thesis
  proof (cases "has_valid_buffers_for_following_bytes ctx1")
    case None
    obtain e2 c2 where u: "do_unsigned_integer ctx1 = (e2, c2)" by force
    from assms False None u have "e = e2" "msgsize c = msgsize c2" "msgidx c = msgidx c2"
      by (auto simp: do_float_and_other_def Let_def ctx1_def [symmetric] split: if_splits)
    with do_unsigned_integer_msg [OF u] c1 show ?thesis
      using u by (auto simp: do_unsigned_integer_def Let_def split: if_splits)
  next
    case (Some e')
    with assms False have "c = ctx1" "e = e'"
      by (auto simp: do_float_and_other_def Let_def ctx1_def [symmetric])
    moreover from Some have "e' = CBOR_ILLEGAL \<or> e' = CBOR_UNDERRUN"
      by (auto simp: has_valid_buffers_for_following_bytes_def split: if_splits)
    ultimately show ?thesis using c1 by auto
  qed
qed

lemmas handler_msg =
  do_unsigned_integer_msg [OF surjective_pairing]
  do_negative_integer_msg [OF surjective_pairing]
  do_string_msg [OF surjective_pairing]
  do_float_and_other_msg [OF surjective_pairing]

lemma decode_dom_msg:
  "decode_cbor_decode_loop_callbacks_do_recursive_dom (Inl (Inl (lvl, ctx, maxitem))) \<Longrightarrow>
     msgsize (snd (decode_cbor lvl ctx maxitem)) = msgsize ctx \<and>
     msgidx ctx \<le> msgidx (snd (decode_cbor lvl ctx maxitem))"
  "decode_cbor_decode_loop_callbacks_do_recursive_dom (Inl (Inr (lvl, ctx, maxitem, item, err))) \<Longrightarrow>
     msgsize (snd (decode_loop lvl ctx maxitem item err)) = msgsize ctx \<and>
     msgidx ctx \<le> msgidx (snd (decode_loop lvl ctx maxitem item err))"
  "decode_cbor_decode_loop_callbacks_do_recursive_dom (Inr (Inl (lvl, mt, ctx))) \<Longrightarrow>
     msgsize (snd (callbacks lvl mt ctx)) = msgsize ctx \<and>
     msgidx ctx \<le> msgidx (snd (callbacks lvl mt ctx)) \<and>
     (fst (callbacks lvl mt ctx) = CBOR_SUCCESS \<or> fst (callbacks lvl mt ctx) = CBOR_BREAK
        \<longrightarrow> msgidx ctx < msgidx (snd (callbacks lvl mt ctx)))"
  "decode_cbor_decode_loop_callbacks_do_recursive_dom (Inr (Inr (lvl, ctx))) \<Longrightarrow>
     msgsize (snd (do_recursive lvl ctx)) = msgsize ctx \<and>
     msgidx ctx < msgidx (snd (do_recursive lvl ctx))"
proof (induct rule: decode_cbor_decode_loop_callbacks_do_recursive.pinduct)
  case (1 lvl ctx maxitem)
  then show ?case
    by (auto simp: decode_cbor.psimps Let_def split: prod.splits)
next
  case (2 lvl ctx maxitem item err)
  show ?case
  proof (cases "msgidx ctx < msgsize ctx \<and> bufidx ctx < bufsize ctx")
    case False
    with "2.hyps"(1) show ?thesis by (auto simp add: decode_loop.psimps)
  next
    case True
    define ctx1 where "ctx1 = ctx\<lparr>major_type := get_major_type (msg ctx ! msgidx ctx),
                       additional_info := get_additional_info (msg ctx ! msgidx ctx),
                       following_bytes := get_following_bytes (get_additional_info (msg ctx ! msgidx ctx))\<rparr>"
    have c1: "msgsize ctx1 = msgsize ctx" "msgidx ctx1 = msgidx ctx" by (simp_all add: ctx1_def)
    show ?thesis
    proof (cases "has_valid_buffers_for_following_bytes ctx1")
      case (Some e)
      with True "2.hyps"(1) c1 show ?thesis
        by (simp add: decode_loop.psimps Let_def ctx1_def [symmetric])
    next
      case None
      obtain e2 c2 where cb: "callbacks lvl (major_type ctx1) ctx1 = (e2, c2)" by force
      from "2.hyps"(2) [OF True refl ctx1_def None] cb c1
      have h2: "msgsize c2 = msgsize ctx" "msgidx ctx \<le> msgidx c2" by auto
      show ?thesis
      proof (cases "\<not> (e2 = CBOR_BREAK \<and> msgidx c2 = msgsize c2) \<and>
           \<not> (e2 \<noteq> CBOR_BREAK \<and> e2 \<noteq> CBOR_SUCCESS) \<and>
           \<not> (maxitem \<le> item + 1 \<and> 0 < maxitem)")
        case True2: True
        from "2.hyps"(3) [OF True refl ctx1_def None cb [symmetric]] True2 h2
        have "msgsize (snd (decode_loop lvl c2 maxitem (item + 1) CBOR_SUCCESS)) = msgsize ctx \<and>
              msgidx ctx \<le> msgidx (snd (decode_loop lvl c2 maxitem (item + 1) CBOR_SUCCESS))"
          by auto
        moreover from True None cb True2 "2.hyps"(1)
        have "decode_loop lvl ctx maxitem item err = decode_loop lvl c2 maxitem (item + 1) CBOR_SUCCESS"
          by (cases e2) (auto simp add: decode_loop.psimps Let_def ctx1_def [symmetric])
        ultimately show ?thesis by simp
      next
        case False
        with True None cb "2.hyps"(1)
        have "snd (decode_loop lvl ctx maxitem item err) = c2"
          by (cases e2) (auto simp add: decode_loop.psimps Let_def ctx1_def [symmetric])
        with h2 show ?thesis by simp
      qed
    qed
  qed
next
  case (3 lvl mt ctx)
  show ?case
    using "3.hyps" handler_msg [of ctx]
    by (auto simp: callbacks.psimps do_tag_def)
next
  case (4 lvl ctx)
  obtain len c1 where g: "go_get_item_length ctx = (len, c1)" by force
  from "4.hyps"(2) [OF g [symmetric]] go_get_item_length_msg [OF g] "4.hyps"(1) g
  show ?case by (auto simp: do_recursive.psimps)
qed

termination decode_cbor
proof (relation "measure (\<lambda>x. case x of
      Inl (Inl (lvl, ctx, mi)) \<Rightarrow> 4 * (msgsize ctx - msgidx ctx) + 3
    | Inl (Inr (lvl, ctx, mi, it, e)) \<Rightarrow> 4 * (msgsize ctx - msgidx ctx) + 2
    | Inr (Inl (lvl, mt, ctx)) \<Rightarrow>
        (if msgsize ctx - msgidx ctx = 0 then 5 else 4 * (msgsize ctx - msgidx ctx) + 1)
    | Inr (Inr (lvl, ctx)) \<Rightarrow>
        (if msgsize ctx - msgidx ctx = 0 then 4 else 4 * (msgsize ctx - msgidx ctx)))",
    goal_cases)
  case 1
  show ?case by simp
next
  case (2 lvl ctx maxitem x)
  then show ?case by simp
next
  case (3 lvl ctx maxitem item err x xa)
  then show ?case by simp
next
  case (4 lvl ctx maxitem item err x xa xb y)
  from decode_dom_msg(3) [OF "4"(9)] "4"(5) [symmetric] "4"(6,7)
  have "msgsize y = msgsize xa" "msgidx xa < msgidx y"
    by auto
  with "4"(1,3) show ?case by (auto intro: diff_less_mono2)
next
  case (5 lvl mt ctx)
  then show ?case by simp
next
  case (6 lvl mt ctx)
  then show ?case by simp
next
  case (7 lvl ctx x y)
  from go_get_item_length_msg [OF "7" [symmetric]] show ?case by auto
qed

declare decode_cbor.simps [simp del] decode_loop.simps [simp del]
  callbacks.simps [simp del] do_recursive.simps [simp del]

section \<open>Properties\<close>

subsection \<open>What a decode call leaves unchanged\<close>

text \<open>
  No handler stores at or beyond the capacity, changes the input or a size, or changes the
  length of the output memory: \<open>same_frame\<close> holds across every handler that is entered
  under the loop guard with the bounds validated, and so across the loop.
\<close>

lemma same_frame_refl: "same_frame ctx ctx"
  by (simp add: same_frame_def)

lemma same_frame_trans: "same_frame a b \<Longrightarrow> same_frame b c \<Longrightarrow> same_frame a c"
  by (simp add: same_frame_def)

lemma length_fold_update:
  "length (fold (\<lambda>i mem. mem[f i := g i]) xs dst) = length dst"
  by (induction xs arbitrary: dst) simp_all

lemma drop_fold_update:
  "\<forall>i \<in> set xs. f i < k \<Longrightarrow> drop k (fold (\<lambda>i mem. mem[f i := g i]) xs dst) = drop k dst"
  by (induction xs arbitrary: dst) simp_all

lemma size_sub_le: "b \<le> a \<Longrightarrow> size_sub a b = a - b"
  by (simp add: size_sub_def)

lemma copy_data_le_length [simp]: "length (copy_data_le dst d src s len) = length dst"
  by (simp add: copy_data_le_def length_fold_update)

lemma copy_data_be_length [simp]: "length (copy_data_be dst d src s len) = length dst"
  by (simp add: copy_data_be_def length_fold_update)

lemma copy_data_length [simp]: "length (copy_data dst d src s len) = length dst"
  by (simp add: copy_data_def)

lemma fill_ff_length [simp]: "length (fill_ff dst d n) = length dst"
  by (simp add: fill_ff_def length_fold_update)

lemma copy_data_le_drop: "d + len \<le> k \<Longrightarrow> drop k (copy_data_le dst d src s len) = drop k dst"
  unfolding copy_data_le_def by (intro drop_fold_update) auto

lemma copy_data_be_drop: "d + len \<le> k \<Longrightarrow> drop k (copy_data_be dst d src s len) = drop k dst"
  unfolding copy_data_be_def by (intro drop_fold_update) auto

lemma copy_data_drop: "d + len \<le> k \<Longrightarrow> drop k (copy_data dst d src s len) = drop k dst"
  by (simp add: copy_data_def copy_data_le_drop)

lemma fill_ff_drop: "d + n \<le> k \<Longrightarrow> drop k (fill_ff dst d n) = drop k dst"
  unfolding fill_ff_def by (intro drop_fold_update) auto

lemma has_valid_None_fits:
  assumes "bufidx ctx < bufsize ctx" and "has_valid_buffers_for_following_bytes ctx = None"
    and "following_bytes ctx \<noteq> INDEFINITE_VALUE"
  shows "bufidx ctx + unat (following_bytes ctx) \<le> bufsize ctx"
    and "following_bytes ctx \<noteq> RESERVED_VALUE"
    and "msgidx ctx \<le> msgsize ctx \<Longrightarrow> msgidx ctx + unat (following_bytes ctx) + 1 \<le> msgsize ctx"
  using assms
  by (auto simp: has_valid_buffers_for_following_bytes_def size_sub_le split: if_splits)

lemma do_unsigned_integer_frame:
  assumes "bufidx ctx < bufsize ctx" and "has_valid_buffers_for_following_bytes ctx = None"
  shows "same_frame ctx (snd (do_unsigned_integer ctx))"
proof (cases "following_bytes ctx = INDEFINITE_VALUE")
  case True
  then show ?thesis by (simp add: do_unsigned_integer_def same_frame_def)
next
  case False
  from has_valid_None_fits(1) [OF assms False] assms(1) False show ?thesis
    by (auto simp: same_frame_def do_unsigned_integer_def Let_def copy_data_drop)
qed

lemma do_unsigned_integer_bufidx:
  "bufidx (snd (do_unsigned_integer ctx)) =
     (if following_bytes ctx = INDEFINITE_VALUE then bufidx ctx
      else if following_bytes ctx = 0 then bufidx ctx + 1
      else bufidx ctx + unat (following_bytes ctx))"
  by (simp add: do_unsigned_integer_def Let_def)

lemma do_unsigned_integer_fst:
  "fst (do_unsigned_integer ctx) =
     (if following_bytes ctx = INDEFINITE_VALUE then CBOR_ILLEGAL else CBOR_SUCCESS)"
  by (simp add: do_unsigned_integer_def Let_def)

lemma do_negative_integer_frame:
  assumes "bufidx ctx < bufsize ctx" and "has_valid_buffers_for_following_bytes ctx = None"
  shows "same_frame ctx (snd (do_negative_integer ctx))"
proof (cases "following_bytes ctx = INDEFINITE_VALUE")
  case True
  then show ?thesis
    by (simp add: do_negative_integer_def do_unsigned_integer_def same_frame_def)
next
  case False
  obtain e c1 where u: "do_unsigned_integer ctx = (e, c1)" by force
  from do_unsigned_integer_frame [OF assms] u have f1: "same_frame ctx c1" by simp
  from do_unsigned_integer_fst [of ctx] u False have e: "e = CBOR_SUCCESS" by simp
  define ds where "ds = (of_nat (size_sub (bufidx c1) (bufidx ctx)) :: u8)"
  have fits: "bufidx ctx + unat ds \<le> bufsize ctx"
  proof (cases "following_bytes ctx = 0")
    case True
    with do_unsigned_integer_bufidx [of ctx] u False have "bufidx c1 = bufidx ctx + 1" by simp
    then have "ds = 1" by (simp add: ds_def size_sub_le)
    with assms(1) show ?thesis by simp
  next
    case nz: False
    with do_unsigned_integer_bufidx [of ctx] u False
    have "bufidx c1 = bufidx ctx + unat (following_bytes ctx)" by simp
    then have "ds = following_bytes ctx" by (simp add: ds_def size_sub_le)
    with has_valid_None_fits(1) [OF assms False] show ?thesis by simp
  qed
  have fill: "bufidx ctx + min (size_sub (bufsize ctx) (bufidx ctx)) 4 \<le> bufsize ctx"
    using assms(1) by (simp add: size_sub_le)
  from f1 have bs: "bufsize c1 = bufsize ctx" by (simp add: same_frame_def)
  have "same_frame c1 (snd (do_negative_integer ctx))"
    using u e fits fill bs
    by (auto simp: do_negative_integer_def Let_def same_frame_def ds_def [symmetric]
        copy_data_be_drop fill_ff_drop)
  with f1 show ?thesis by (rule same_frame_trans)
qed

lemma go_get_item_length_frame:
  "same_frame ctx (snd (go_get_item_length ctx))"
  "bufidx (snd (go_get_item_length ctx)) = bufidx ctx"
  by (auto simp: go_get_item_length_def Let_def same_frame_def split: prod.splits)

lemma do_string_frame:
  assumes "bufidx ctx < bufsize ctx"
  shows "same_frame ctx (snd (do_string ctx))"
proof -
  obtain len c1 where g: "go_get_item_length ctx = (len, c1)" by force
  from go_get_item_length_frame [of ctx] g
  have f1: "same_frame ctx c1" and b1: "bufidx c1 = bufidx ctx" by simp_all
  from f1 have bs: "bufsize c1 = bufsize ctx" by (simp add: same_frame_def)
  have "drop (bufsize ctx) (fold (\<lambda>i mem. mem[bufidx c1 + i := msg c1 ! (msgidx c1 + i)])
           [0..<len] (buf c1)) = drop (bufsize ctx) (buf c1)"
    if "len \<le> size_sub (bufsize c1) (bufidx c1)"
    using that assms b1 bs by (intro drop_fold_update) (auto simp: size_sub_le)
  then have "same_frame c1 (snd (do_string ctx))"
    using g bs by (auto simp: do_string_def Let_def same_frame_def length_fold_update)
  with f1 show ?thesis by (rule same_frame_trans)
qed

lemma do_float_and_other_frame:
  assumes "bufidx ctx < bufsize ctx"
  shows "same_frame ctx (snd (do_float_and_other ctx))"
proof (cases "following_bytes ctx = INDEFINITE_VALUE")
  case True
  then show ?thesis by (simp add: do_float_and_other_def same_frame_def)
next
  case False
  define ctx1 where "ctx1 = (if following_bytes ctx = 1
                    then ctx\<lparr>following_bytes := 0,
                             msgidx := msgidx ctx + 1,
                             additional_info := msg ctx ! (msgidx ctx + 1)\<rparr>
                    else ctx)"
  have f1: "same_frame ctx ctx1" and b1: "bufidx ctx1 = bufidx ctx"
    by (simp_all add: ctx1_def same_frame_def)
  from f1 have bs: "bufsize ctx1 = bufsize ctx" by (simp add: same_frame_def)
  show ?thesis
  proof (cases "has_valid_buffers_for_following_bytes ctx1")
    case (Some e)
    with False f1 show ?thesis
      by (simp add: do_float_and_other_def Let_def ctx1_def [symmetric])
  next
    case None
    obtain e c2 where u: "do_unsigned_integer ctx1 = (e, c2)" by force
    from assms b1 bs have lt: "bufidx ctx1 < bufsize ctx1" by simp
    from do_unsigned_integer_frame [OF lt None] u have f2: "same_frame ctx1 c2" by simp
    have fb2: "following_bytes c2 = following_bytes ctx1"
      using u by (auto simp: do_unsigned_integer_def Let_def split: if_splits)
    have nind: "following_bytes ctx1 \<noteq> INDEFINITE_VALUE"
      using False by (auto simp: ctx1_def INDEFINITE_VALUE_def)
    have "bufidx c2 - 1 < bufsize ctx" if "following_bytes c2 = 0"
      using do_unsigned_integer_bufidx [of ctx1] u that fb2 nind assms b1 by simp
    then have "same_frame c2 (snd (do_float_and_other ctx))"
      using False None u f2 bs
      by (auto simp: do_float_and_other_def Let_def ctx1_def [symmetric] same_frame_def)
    with same_frame_trans [OF f1 f2] show ?thesis by (rule same_frame_trans)
  qed
qed


lemma decode_frame:
  "same_frame ctx (snd (decode_cbor lvl ctx maxitem))"
  "same_frame ctx (snd (decode_loop lvl ctx maxitem item err))"
  "bufidx ctx < bufsize ctx \<Longrightarrow> has_valid_buffers_for_following_bytes ctx = None \<Longrightarrow>
     same_frame ctx (snd (callbacks lvl mt ctx))"
  "same_frame ctx (snd (do_recursive lvl ctx))"
proof (induct lvl ctx maxitem and lvl ctx maxitem item err and lvl mt ctx and lvl ctx
    rule: decode_cbor_decode_loop_callbacks_do_recursive.induct)
  case (1 lvl ctx maxitem)
  define ctx1 where "ctx1 = ctx\<lparr>recursion_depth := recursion_depth ctx + 1\<rparr>"
  have f1: "same_frame ctx ctx1" by (simp add: ctx1_def same_frame_def)
  show ?case
  proof (cases "lvl < unat (recursion_depth ctx1)")
    case True
    with f1 show ?thesis by (simp add: decode_cbor.simps Let_def ctx1_def [symmetric])
  next
    case False
    obtain e c2 where l: "decode_loop lvl ctx1 maxitem 0 CBOR_SUCCESS = (e, c2)" by force
    from "1" [OF ctx1_def False] l have "same_frame ctx1 c2" by simp
    then have "same_frame ctx1 (c2\<lparr>recursion_depth := recursion_depth c2 - 1\<rparr>)"
      by (simp add: same_frame_def)
    with f1 have "same_frame ctx (c2\<lparr>recursion_depth := recursion_depth c2 - 1\<rparr>)"
      by (rule same_frame_trans)
    with False l show ?thesis by (simp add: decode_cbor.simps Let_def ctx1_def [symmetric])
  qed
next
  case (2 lvl ctx maxitem item err)
  show ?case
  proof (cases "msgidx ctx < msgsize ctx \<and> bufidx ctx < bufsize ctx")
    case False
    then show ?thesis by (auto simp: decode_loop.simps same_frame_refl)
  next
    case True
    define ctx1 where "ctx1 = ctx\<lparr>major_type := get_major_type (msg ctx ! msgidx ctx),
        additional_info := get_additional_info (msg ctx ! msgidx ctx),
        following_bytes := get_following_bytes (get_additional_info (msg ctx ! msgidx ctx))\<rparr>"
    have f1: "same_frame ctx ctx1" and b1: "bufidx ctx1 < bufsize ctx1"
      using True by (simp_all add: ctx1_def same_frame_def)
    show ?thesis
    proof (cases "has_valid_buffers_for_following_bytes ctx1")
      case (Some e)
      with True f1 show ?thesis by (simp add: decode_loop.simps Let_def ctx1_def [symmetric])
    next
      case None
      obtain e2 c2 where cb: "callbacks lvl (major_type ctx1) ctx1 = (e2, c2)" by force
      from "2"(1) [OF True refl ctx1_def None b1 None] cb have "same_frame ctx1 c2" by simp
      with f1 have f2: "same_frame ctx c2" by (rule same_frame_trans)
      show ?thesis
      proof (cases "\<not> (e2 = CBOR_BREAK \<and> msgidx c2 = msgsize c2) \<and>
           \<not> (e2 \<noteq> CBOR_BREAK \<and> e2 \<noteq> CBOR_SUCCESS) \<and>
           \<not> (maxitem \<le> item + 1 \<and> 0 < maxitem)")
        case go: True
        from "2"(2) [OF True refl ctx1_def None cb [symmetric]] go
        have "same_frame c2 (snd (decode_loop lvl c2 maxitem (item + 1) CBOR_SUCCESS))"
          by blast
        with f2 have "same_frame ctx (snd (decode_loop lvl c2 maxitem (item + 1) CBOR_SUCCESS))"
          by (rule same_frame_trans)
        moreover from True None cb go
        have "decode_loop lvl ctx maxitem item err =
              decode_loop lvl c2 maxitem (item + 1) CBOR_SUCCESS"
          by (cases e2) (auto simp add: decode_loop.simps Let_def ctx1_def [symmetric])
        ultimately show ?thesis by simp
      next
        case False
        with True None cb have "snd (decode_loop lvl ctx maxitem item err) = c2"
          by (cases e2) (auto simp add: decode_loop.simps Let_def ctx1_def [symmetric])
        with f2 show ?thesis by simp
      qed
    qed
  qed
next
  case (3 lvl mt ctx)
  from "3.prems" "3.hyps" show ?case
    by (simp add: callbacks.simps do_unsigned_integer_frame do_negative_integer_frame
        do_string_frame do_float_and_other_frame do_tag_def same_frame_refl)
next
  case (4 lvl ctx)
  obtain len c1 where g: "go_get_item_length ctx = (len, c1)" by force
  from go_get_item_length_frame(1) [of ctx] g have "same_frame ctx c1" by simp
  moreover from "4" [OF g [symmetric]] have "same_frame c1 (snd (decode_cbor lvl c1 len))" .
  ultimately have "same_frame ctx (snd (decode_cbor lvl c1 len))" by (rule same_frame_trans)
  with g show ?case by (simp add: do_recursive.simps)
qed

lemma decode_cbor_frame_sizes:
  "msgsize (snd (decode_cbor lvl ctx maxitem)) = msgsize ctx"
  "bufsize (snd (decode_cbor lvl ctx maxitem)) = bufsize ctx"
  "msg (snd (decode_cbor lvl ctx maxitem)) = msg ctx"
  using decode_frame(1) [of ctx lvl maxitem] by (simp_all add: same_frame_def)

subsection \<open>Header classifier and bounds validator\<close>

lemma get_additional_info_le: "get_additional_info hdr \<le> 31"
  unfolding get_additional_info_def ADDITIONAL_INFO_MASK_def
  by (rule word_and_le1)

lemma u8_between_24_27:
  fixes ai :: u8
  assumes "24 \<le> ai" "ai \<le> 27"
  shows "ai = 24 \<or> ai = 25 \<or> ai = 26 \<or> ai = 27"
proof -
  from assms have "24 \<le> unat ai" "unat ai \<le> 27"
    by (simp_all add: word_le_nat_alt)
  then have "unat ai = 24 \<or> unat ai = 25 \<or> unat ai = 26 \<or> unat ai = 27"
    by arith
  then show ?thesis
    by (auto dest!: arg_cong [where f = "word_of_nat :: nat \<Rightarrow> u8"])
qed

text \<open>
  Claim C8. For every header byte, the classifier resolves the additional-info field (the
  low five bits, so at most 31) to: 0 below 24; the INDEFINITE sentinel at 31; the
  RESERVED sentinel at 28, 29 and 30; and \<open>2 ^ (ai - 24)\<close>, one of 1, 2, 4, 8, from 24
  to 27. The classifier is a total function of the byte alone.
\<close>

theorem get_following_bytes_rule:
  fixes hdr :: u8
  shows "get_additional_info hdr \<le> 31 \<and>
    (get_additional_info hdr < 24 \<longrightarrow> get_following_bytes (get_additional_info hdr) = 0) \<and>
    (get_additional_info hdr = 31 \<longrightarrow>
       get_following_bytes (get_additional_info hdr) = INDEFINITE_VALUE) \<and>
    (get_additional_info hdr \<in> {28, 29, 30} \<longrightarrow>
       get_following_bytes (get_additional_info hdr) = RESERVED_VALUE) \<and>
    (24 \<le> get_additional_info hdr \<and> get_additional_info hdr \<le> 27 \<longrightarrow>
       get_following_bytes (get_additional_info hdr) = 2 ^ (unat (get_additional_info hdr) - 24) \<and>
       get_following_bytes (get_additional_info hdr) \<in> {1, 2, 4, 8})"
proof -
  define ai where "ai = get_additional_info hdr"
  have a: "ai \<le> 31" unfolding ai_def by (rule get_additional_info_le)
  have b: "ai < 24 \<longrightarrow> get_following_bytes ai = 0"
    by (simp add: get_following_bytes_def)
  have c: "ai = 31 \<longrightarrow> get_following_bytes ai = INDEFINITE_VALUE"
    by (simp add: get_following_bytes_def)
  have d: "ai \<in> {28, 29, 30} \<longrightarrow> get_following_bytes ai = RESERVED_VALUE"
    by (auto simp: get_following_bytes_def)
  have e: "24 \<le> ai \<and> ai \<le> 27 \<longrightarrow>
       get_following_bytes ai = 2 ^ (unat ai - 24) \<and> get_following_bytes ai \<in> {1, 2, 4, 8}"
  proof
    assume "24 \<le> ai \<and> ai \<le> 27"
    then have "ai = 24 \<or> ai = 25 \<or> ai = 26 \<or> ai = 27"
      using u8_between_24_27 by blast
    then show "get_following_bytes ai = 2 ^ (unat ai - 24) \<and> get_following_bytes ai \<in> {1, 2, 4, 8}"
      by (auto simp: get_following_bytes_def)
  qed
  from a b c d e show ?thesis unfolding ai_def by blast
qed

theorem get_following_bytes_rule_witness:
  "get_additional_info 0x05 < 24 \<and> get_following_bytes (get_additional_info 0x05) = 0 \<and>
   get_additional_info 0xff = 31 \<and> get_following_bytes (get_additional_info 0xff) = INDEFINITE_VALUE \<and>
   get_additional_info 0x1c \<in> {28, 29, 30} \<and> get_following_bytes (get_additional_info 0x1c) = RESERVED_VALUE \<and>
   24 \<le> get_additional_info 0x3a \<and> get_additional_info 0x3a \<le> 27 \<and>
   get_following_bytes (get_additional_info 0x3a) = 4"
proof -
  have h: "get_additional_info 0x05 = 5" "get_additional_info 0xff = 31"
    "get_additional_info 0x1c = 28" "get_additional_info 0x3a = 26"
    by (simp_all add: get_additional_info_def ADDITIONAL_INFO_MASK_def)
  show ?thesis
    using get_following_bytes_rule [of "0x05"] get_following_bytes_rule [of "0xff"]
      get_following_bytes_rule [of "0x1c"] get_following_bytes_rule [of "0x3a"]
    by (simp add: h)
qed

text \<open>
  Claim C6. In a state whose cursors lie within their buffers, the bounds validator
  fails with \<open>CBOR_ILLEGAL\<close> (Malformed) when the descriptor is RESERVED; passes when it is
  INDEFINITE; and for a byte count fails with \<open>CBOR_ILLEGAL\<close> when fewer than
  \<open>following_bytes + 1\<close> input bytes remain, fails with \<open>CBOR_UNDERRUN\<close> (OutputExhausted)
  when the input suffices but fewer than \<open>following_bytes\<close> bytes of output capacity
  remain, and passes otherwise. The two failure codes are different.
\<close>

theorem has_valid_buffers_rule:
  assumes "msgidx ctx \<le> msgsize ctx" and "bufidx ctx \<le> bufsize ctx"
  shows "(following_bytes ctx = RESERVED_VALUE \<longrightarrow>
            has_valid_buffers_for_following_bytes ctx = Some CBOR_ILLEGAL) \<and>
         (following_bytes ctx = INDEFINITE_VALUE \<longrightarrow>
            has_valid_buffers_for_following_bytes ctx = None) \<and>
         (following_bytes ctx \<noteq> RESERVED_VALUE \<and> following_bytes ctx \<noteq> INDEFINITE_VALUE \<and>
          msgsize ctx - msgidx ctx < unat (following_bytes ctx) + 1 \<longrightarrow>
            has_valid_buffers_for_following_bytes ctx = Some CBOR_ILLEGAL) \<and>
         (following_bytes ctx \<noteq> RESERVED_VALUE \<and> following_bytes ctx \<noteq> INDEFINITE_VALUE \<and>
          unat (following_bytes ctx) + 1 \<le> msgsize ctx - msgidx ctx \<and>
          bufsize ctx - bufidx ctx < unat (following_bytes ctx) \<longrightarrow>
            has_valid_buffers_for_following_bytes ctx = Some CBOR_UNDERRUN) \<and>
         (following_bytes ctx \<noteq> RESERVED_VALUE \<and> following_bytes ctx \<noteq> INDEFINITE_VALUE \<and>
          unat (following_bytes ctx) + 1 \<le> msgsize ctx - msgidx ctx \<and>
          unat (following_bytes ctx) \<le> bufsize ctx - bufidx ctx \<longrightarrow>
            has_valid_buffers_for_following_bytes ctx = None) \<and>
         CBOR_ILLEGAL \<noteq> CBOR_UNDERRUN"
  using assms
  by (simp add: has_valid_buffers_for_following_bytes_def size_sub_def
      INDEFINITE_VALUE_def RESERVED_VALUE_def)

theorem has_valid_buffers_rule_witness:
  "has_valid_buffers_for_following_bytes (initial_context [0] 1 [0x1c] 1\<lparr>following_bytes := RESERVED_VALUE\<rparr>)
     = Some CBOR_ILLEGAL \<and>
   has_valid_buffers_for_following_bytes (initial_context [0] 1 [0x9f] 1\<lparr>following_bytes := INDEFINITE_VALUE\<rparr>)
     = None \<and>
   has_valid_buffers_for_following_bytes (initial_context [0, 0] 2 [0x19, 0x01] 2\<lparr>following_bytes := 2\<rparr>)
     = Some CBOR_ILLEGAL \<and>
   has_valid_buffers_for_following_bytes (initial_context [0] 1 [0x19, 0x01, 0x02] 3\<lparr>following_bytes := 2\<rparr>)
     = Some CBOR_UNDERRUN \<and>
   has_valid_buffers_for_following_bytes (initial_context [0, 0] 2 [0x19, 0x01, 0x02] 3\<lparr>following_bytes := 2\<rparr>)
     = None"
  using
    has_valid_buffers_rule [of "initial_context [0] 1 [0x1c] 1\<lparr>following_bytes := RESERVED_VALUE\<rparr>"]
    has_valid_buffers_rule [of "initial_context [0] 1 [0x9f] 1\<lparr>following_bytes := INDEFINITE_VALUE\<rparr>"]
    has_valid_buffers_rule [of "initial_context [0, 0] 2 [0x19, 0x01] 2\<lparr>following_bytes := 2\<rparr>"]
    has_valid_buffers_rule [of "initial_context [0] 1 [0x19, 0x01, 0x02] 3\<lparr>following_bytes := 2\<rparr>"]
    has_valid_buffers_rule [of "initial_context [0, 0] 2 [0x19, 0x01, 0x02] 3\<lparr>following_bytes := 2\<rparr>"]
  by (simp add: initial_context_def INDEFINITE_VALUE_def RESERVED_VALUE_def)

subsection \<open>The final checks of the entry point\<close>

text \<open>
  Claim C7. When the decode loop returns Success to the entry point, the entry point
  returns Overrun if the read cursor is strictly before the end of the input, otherwise
  OutputExhausted if the write cursor is strictly below the capacity, otherwise Success.
\<close>

theorem cbor_decode_success_checks:
  assumes "decode_cbor lvl (initial_context out bufsz inp msgsz) 0 = (CBOR_SUCCESS, ctx')"
  shows "cbor_decode lvl out bufsz inp msgsz =
           (if msgidx ctx' < msgsz then CBOR_OVERRUN
            else if bufidx ctx' < bufsz then CBOR_UNDERRUN
            else CBOR_SUCCESS, ctx')"
proof -
  from decode_cbor_frame_sizes [of lvl "initial_context out bufsz inp msgsz" 0] assms
  have "msgsize ctx' = msgsz" "bufsize ctx' = bufsz"
    by (simp_all add: initial_context_def)
  with assms show ?thesis by (simp add: cbor_decode_def)
qed

theorem cbor_decode_success_checks_witness:
  "decode_cbor 8 (initial_context [0] 1 [0x01, 0x02] 2) 0 =
     (CBOR_SUCCESS, initial_context [0x01] 1 [0x01, 0x02] 2\<lparr>bufidx := 1, msgidx := 1, additional_info := 1\<rparr>) \<and>
   fst (cbor_decode 8 [0] 1 [0x01, 0x02] 2) = CBOR_OVERRUN \<and>
   decode_cbor 8 (initial_context [0, 0] 2 [0x01] 1) 0 =
     (CBOR_SUCCESS, initial_context [0x01, 0] 2 [0x01] 1\<lparr>bufidx := 1, msgidx := 1, additional_info := 1\<rparr>) \<and>
   fst (cbor_decode 8 [0, 0] 2 [0x01] 1) = CBOR_UNDERRUN \<and>
   decode_cbor 8 (initial_context [0] 1 [0x01] 1) 0 =
     (CBOR_SUCCESS, initial_context [0x01] 1 [0x01] 1\<lparr>bufidx := 1, msgidx := 1, additional_info := 1\<rparr>) \<and>
   fst (cbor_decode 8 [0] 1 [0x01] 1) = CBOR_SUCCESS"
proof -
  have a: "decode_cbor 8 (initial_context [0] 1 [0x01, 0x02] 2) 0 =
     (CBOR_SUCCESS, initial_context [0x01] 1 [0x01, 0x02] 2\<lparr>bufidx := 1, msgidx := 1, additional_info := 1\<rparr>)"
    by code_simp
  have b: "decode_cbor 8 (initial_context [0, 0] 2 [0x01] 1) 0 =
     (CBOR_SUCCESS, initial_context [0x01, 0] 2 [0x01] 1\<lparr>bufidx := 1, msgidx := 1, additional_info := 1\<rparr>)"
    by code_simp
  have c: "decode_cbor 8 (initial_context [0] 1 [0x01] 1) 0 =
     (CBOR_SUCCESS, initial_context [0x01] 1 [0x01] 1\<lparr>bufidx := 1, msgidx := 1, additional_info := 1\<rparr>)"
    by code_simp
  show ?thesis
    using cbor_decode_success_checks [OF a] cbor_decode_success_checks [OF b]
      cbor_decode_success_checks [OF c] a b c
    by (simp add: initial_context_def)
qed

text \<open>
  Claim C9. For an empty input (length 0) the entry point writes nothing to the output
  buffer and returns Success when the capacity is 0 and OutputExhausted when it is
  positive. (The configured maximum nesting level is positive: the top-level call
  itself counts as level 1.)
\<close>

theorem cbor_decode_empty_input:
  assumes "0 < lvl"
  shows "cbor_decode lvl out bufsz inp 0 =
           (if bufsz = 0 then CBOR_SUCCESS else CBOR_UNDERRUN, initial_context out bufsz inp 0) \<and>
         buf (snd (cbor_decode lvl out bufsz inp 0)) = out \<and>
         bufidx (snd (cbor_decode lvl out bufsz inp 0)) = 0"
  using assms
  by (simp add: cbor_decode_def initial_context_def decode_cbor.simps decode_loop.simps Let_def)

theorem cbor_decode_empty_input_witness:
  "(0::nat) < 8 \<and>
   fst (cbor_decode 8 [] 0 [] 0) = CBOR_SUCCESS \<and> buf (snd (cbor_decode 8 [] 0 [] 0)) = [] \<and>
   fst (cbor_decode 8 [7, 7] 2 [] 0) = CBOR_UNDERRUN \<and> buf (snd (cbor_decode 8 [7, 7] 2 [] 0)) = [7, 7]"
  using cbor_decode_empty_input [of 8 "[]" 0 "[]"] cbor_decode_empty_input [of 8 "[7, 7]" 2 "[]"]
  by (simp add: initial_context_def)


subsection \<open>Unfolding the loop\<close>

text \<open>
  The lemmas below unfold one call of \<^verbatim>\<open>decode_cbor\<close> and one turn of its loop.
\<close>

lemma decode_cbor_enter:
  assumes "ctx1 = ctx\<lparr>recursion_depth := recursion_depth ctx + 1\<rparr>"
    and "\<not> lvl < unat (recursion_depth ctx1)"
    and "decode_loop lvl ctx1 maxitem 0 CBOR_SUCCESS = (e, c2)"
  shows "decode_cbor lvl ctx maxitem = (e, c2\<lparr>recursion_depth := recursion_depth c2 - 1\<rparr>)"
  using assms by (simp add: decode_cbor.simps Let_def)

lemma decode_loop_stop:
  assumes "\<not> (msgidx ctx < msgsize ctx \<and> bufidx ctx < bufsize ctx)"
  shows "decode_loop lvl ctx maxitem item err = (err, ctx)"
  using assms by (subst decode_loop.simps) auto

lemma decode_loop_invalid:
  assumes "msgidx ctx < msgsize ctx" and "bufidx ctx < bufsize ctx"
    and "has_valid_buffers_for_following_bytes (read_header ctx) = Some e"
  shows "decode_loop lvl ctx maxitem item err = (e, read_header ctx)"
  using assms by (subst decode_loop.simps) (simp add: Let_def read_header_def)

lemma decode_loop_step:
  assumes "msgidx ctx < msgsize ctx" and "bufidx ctx < bufsize ctx"
    and "has_valid_buffers_for_following_bytes (read_header ctx) = None"
    and "callbacks lvl (major_type (read_header ctx)) (read_header ctx) = (e2, c2)"
  shows "decode_loop lvl ctx maxitem item err =
           (if e2 = CBOR_BREAK \<and> msgidx c2 = msgsize c2 then (e2, c2)
            else if e2 \<noteq> CBOR_BREAK \<and> e2 \<noteq> CBOR_SUCCESS then (e2, c2)
            else if item + 1 \<ge> maxitem \<and> maxitem > 0 then (CBOR_SUCCESS, c2)
            else decode_loop lvl c2 maxitem (item + 1) CBOR_SUCCESS)"
  using assms by (subst decode_loop.simps) (simp add: Let_def read_header_def)

lemma decode_cbor_excessive:
  "lvl < unat (recursion_depth ctx + 1) \<Longrightarrow>
   decode_cbor lvl ctx maxitem = (CBOR_EXCESSIVE, ctx\<lparr>recursion_depth := recursion_depth ctx + 1\<rparr>)"
  by (simp add: decode_cbor.simps Let_def)

lemma cbor_decode_fst:
  "fst (cbor_decode lvl out bufsz inp msgsz) =
     (let r = decode_cbor lvl (initial_context out bufsz inp msgsz) 0 in
      if fst r = CBOR_SUCCESS
      then (if msgidx (snd r) < msgsize (snd r) then CBOR_OVERRUN
            else if bufidx (snd r) < bufsize (snd r) then CBOR_UNDERRUN
            else CBOR_SUCCESS)
      else fst r)"
  by (simp add: cbor_decode_def Let_def split: prod.splits)

lemma cbor_decode_snd:
  "snd (cbor_decode lvl out bufsz inp msgsz) =
     snd (decode_cbor lvl (initial_context out bufsz inp msgsz) 0)"
  by (simp add: cbor_decode_def Let_def split: prod.splits)

subsection \<open>Header bytes\<close>

lemma unat_of_nat_u8: "n < 256 \<Longrightarrow> unat (of_nat n :: u8) = n"
  by (simp add: unat_of_nat)

lemma hdr_fields_array2:
  "get_major_type 0x82 = 4" "get_additional_info 0x82 = 2" "get_following_bytes 2 = 0"
  by (simp_all add: get_major_type_def get_additional_info_def ADDITIONAL_INFO_MASK_def
      get_following_bytes_def)

lemma uint_hdr_fields:
  fixes hdr :: u8
  assumes "hdr < 32"
  shows "get_major_type hdr = 0" "get_additional_info hdr = hdr"
proof -
  from assms have "unat hdr < 32" by (simp add: word_less_nat_alt)
  then have "unat (drop_bit 5 hdr) = 0"
    by (simp add: drop_bit_eq_div unat_div_distrib)
  then show "get_major_type hdr = 0"
    unfolding get_major_type_def by (simp add: unat_eq_0)
  from assms have "hdr < 2 ^ 5" by simp
  then have "hdr AND mask 5 = hdr" by (rule less_mask_eq)
  then show "get_additional_info hdr = hdr"
    by (simp add: get_additional_info_def ADDITIONAL_INFO_MASK_def mask_eq_exp_minus_1)
qed


lemma uint_following_bytes:
  fixes hdr :: u8
  assumes "hdr \<le> 27"
  shows "get_following_bytes hdr \<noteq> INDEFINITE_VALUE"
    and "get_following_bytes hdr \<noteq> RESERVED_VALUE"
proof -
  have "get_following_bytes hdr \<in> {0, 1, 2, 4, 8}"
  proof (cases "hdr < 24")
    case True
    then show ?thesis by (simp add: get_following_bytes_def)
  next
    case False
    then have "24 \<le> hdr" by simp
    with assms have "hdr = 24 \<or> hdr = 25 \<or> hdr = 26 \<or> hdr = 27"
      using u8_between_24_27 by blast
    then show ?thesis by (auto simp: get_following_bytes_def)
  qed
  then show "get_following_bytes hdr \<noteq> INDEFINITE_VALUE"
    and "get_following_bytes hdr \<noteq> RESERVED_VALUE"
    by (auto simp: INDEFINITE_VALUE_def RESERVED_VALUE_def)
qed

lemma do_unsigned_integer_fields:
  assumes "following_bytes ctx \<noteq> INDEFINITE_VALUE"
  shows "fst (do_unsigned_integer ctx) = CBOR_SUCCESS"
    and "msgidx (snd (do_unsigned_integer ctx)) = msgidx ctx + unat (following_bytes ctx) + 1"
    and "bufidx (snd (do_unsigned_integer ctx)) =
           bufidx ctx + (if following_bytes ctx = 0 then 1 else unat (following_bytes ctx))"
    and "msgsize (snd (do_unsigned_integer ctx)) = msgsize ctx"
    and "bufsize (snd (do_unsigned_integer ctx)) = bufsize ctx"
    and "recursion_depth (snd (do_unsigned_integer ctx)) = recursion_depth ctx"
  using assms by (simp_all add: do_unsigned_integer_def Let_def)

lemma hdr_split:
  fixes h :: u8
  shows "unat h = 32 * unat (get_major_type h) + unat (get_additional_info h)"
proof -
  have "unat (get_major_type h) = unat h div 32"
    by (simp add: get_major_type_def drop_bit_eq_div unat_div_distrib)
  moreover have "unat (get_additional_info h) = unat h mod 32"
  proof -
    have "h AND 31 = h AND mask 5" by (simp add: mask_eq_exp_minus_1)
    also have "\<dots> = h mod 2 ^ 5" by (rule word_mod_2p_is_mask [symmetric]) simp
    finally have "unat (h AND 31) = unat (h mod 32)" by simp
    also have "\<dots> = unat h mod 32" by (simp only: unat_mod_distrib) simp
    finally show ?thesis by (simp only: get_additional_info_def ADDITIONAL_INFO_MASK_def)
  qed
  ultimately show ?thesis by simp
qed

lemma get_major_type_le: "unat (get_major_type h) \<le> 7"
proof -
  have "unat h < 2 ^ LENGTH(8)" by (rule unsigned_less)
  then have "unat h < 256" by simp
  then show ?thesis
    by (simp add: get_major_type_def drop_bit_eq_div unat_div_distrib)
qed


lemma get_following_bytes_indefinite:
  assumes "get_following_bytes ai = INDEFINITE_VALUE"
  shows "ai = 31"
proof (rule ccontr)
  assume n: "ai \<noteq> 31"
  show False
  proof (cases "ai < 24 \<or> 28 \<le> ai")
    case True
    with n assms show False
      by (auto simp: get_following_bytes_def INDEFINITE_VALUE_def RESERVED_VALUE_def
          split: if_splits)
  next
    case False
    then have "24 \<le> ai" "ai \<le> 27"
      by (simp_all add: word_le_nat_alt word_less_nat_alt)
    then have "ai = 24 \<or> ai = 25 \<or> ai = 26 \<or> ai = 27" by (rule u8_between_24_27)
    with assms show False
      by (auto simp: get_following_bytes_def INDEFINITE_VALUE_def)
  qed
qed

lemma break_marker_byte:
  fixes h :: u8
  assumes "get_major_type h \<notin> {0, 1, 2, 3, 4, 5, 6}"
    and "get_following_bytes (get_additional_info h) = INDEFINITE_VALUE"
  shows "h = 0xff"
proof -
  from assms(2) have "get_additional_info h = 31" by (rule get_following_bytes_indefinite)
  then have ai: "unat (get_additional_info h) = 31" by simp
  have "unat (get_major_type h) = 7"
  proof -
    have "unat (get_major_type h) \<le> 7" by (rule get_major_type_le)
    moreover from assms(1) have "unat (get_major_type h) \<notin> {0, 1, 2, 3, 4, 5, 6}"
      by (auto simp: word_unat_eq_iff)
    ultimately show ?thesis by auto
  qed
  with ai hdr_split [of h] have "unat h = 255" by simp
  then show ?thesis by (simp add: word_unat_eq_iff)
qed

subsection \<open>Stores of the copy loops\<close>

lemma fold_update_be_nth:
  assumes "j < length dst"
  shows "fold (\<lambda>i mem. mem[d + i := g i]) [0..<n] dst ! j =
           (if d \<le> j \<and> j < d + n then g (j - d) else dst ! j)"
  using assms
proof (induction n)
  case 0
  then show ?case by auto
next
  case (Suc n)
  have len: "length (fold (\<lambda>i mem. mem[d + i := g i]) [0..<n] dst) = length dst"
    by (rule length_fold_update)
  show ?case
  proof (cases "j = d + n")
    case True
    with Suc.prems len show ?thesis by simp
  next
    case False
    with Suc show ?thesis by (auto simp: nth_list_update)
  qed
qed


lemma copy_data_be_nth:
  "j < length dst \<Longrightarrow> copy_data_be dst d src s len ! j =
     (if d \<le> j \<and> j < d + len then src ! (s + (j - d)) else dst ! j)"
  unfolding copy_data_be_def by (rule fold_update_be_nth)

lemma fill_ff_nth:
  "j < length dst \<Longrightarrow> fill_ff dst d n ! j = (if d \<le> j \<and> j < d + n then 0xff else dst ! j)"
  unfolding fill_ff_def by (rule fold_update_be_nth)



subsection \<open>Recursion depth\<close>

lemma hdr_fields_array1:
  "get_major_type 0x81 = 4" "get_additional_info 0x81 = 1" "get_following_bytes 1 = 0"
  by (simp_all add: get_major_type_def get_additional_info_def ADDITIONAL_INFO_MASK_def
      get_following_bytes_def drop_bit_eq_div)

lemma unat_of_nat_succ_u8:
  assumes "n < 255"
  shows "unat (of_nat n + 1 :: u8) = n + 1"
proof -
  have "(of_nat n + 1 :: u8) = of_nat (n + 1)" by simp
  moreover from assms have "n + 1 < 256" by simp
  ultimately show ?thesis by (simp only: unat_of_nat_u8)
qed

lemma nested_arrays_excessive:
  assumes "lvl < 255" and "i \<le> lvl"
    and "msg ctx = replicate lvl 0x81 @ [0x01]" and "msgsize ctx = lvl + 1"
    and "msgidx ctx = i" and "recursion_depth ctx = of_nat i" and "bufidx ctx < bufsize ctx"
  shows "fst (decode_cbor lvl ctx maxitem) = CBOR_EXCESSIVE \<and>
         recursion_depth (snd (decode_cbor lvl ctx maxitem)) = of_nat i + 1"
  using assms
proof (induction "lvl - i" arbitrary: i ctx maxitem)
  case 0
  then have i: "i = lvl" by simp
  with "0.prems" have "unat (recursion_depth ctx + 1) = lvl + 1"
    by (simp only: unat_of_nat_succ_u8)
  then have "lvl < unat (recursion_depth ctx + 1)" by simp
  from decode_cbor_excessive [OF this] "0.prems" show ?case by simp
next
  case (Suc k)
  then have i: "i < lvl" by simp
  define ctx1 where "ctx1 = ctx\<lparr>recursion_depth := recursion_depth ctx + 1\<rparr>"
  have d1: "recursion_depth ctx1 = of_nat (i + 1)"
    using Suc.prems by (simp add: ctx1_def)
  from i Suc.prems(1) have "i < 255" by simp
  then have u1: "unat (recursion_depth ctx1) = i + 1"
    using Suc.prems(6) by (simp only: ctx1_def unat_of_nat_succ_u8 [symmetric]) simp
  have lvl1: "\<not> lvl < unat (recursion_depth ctx1)" using i by (simp add: u1)
  have g: "msgidx ctx1 < msgsize ctx1" "bufidx ctx1 < bufsize ctx1"
    using Suc.prems i by (simp_all add: ctx1_def)
  have byte: "msg ctx1 ! msgidx ctx1 = 0x81"
    using Suc.prems i by (simp add: ctx1_def nth_append)
  define ctxA where "ctxA = read_header ctx1"
  have A: "msgidx ctxA = i" "msgsize ctxA = lvl + 1" "bufidx ctxA < bufsize ctxA"
    "major_type ctxA = 4" "additional_info ctxA = 1" "following_bytes ctxA = 0"
    "recursion_depth ctxA = of_nat (i + 1)" "msg ctxA = replicate lvl 0x81 @ [0x01]"
    using Suc.prems g
    by (simp_all add: ctxA_def read_header_def byte hdr_fields_array1 d1, simp_all add: ctx1_def)
  have vA: "has_valid_buffers_for_following_bytes ctxA = None"
    using i A(3) by (simp add: has_valid_buffers_for_following_bytes_def A size_sub_def
        INDEFINITE_VALUE_def RESERVED_VALUE_def)
  have ggil: "go_get_item_length ctxA = (1, ctxA\<lparr>msgidx := i + 1\<rparr>)"
    by (simp add: go_get_item_length_def A INDEFINITE_VALUE_def)
  have k: "k = lvl - (i + 1)" using Suc.hyps(2) by simp
  have ih: "fst (decode_cbor lvl (ctxA\<lparr>msgidx := i + 1\<rparr>) 1) = CBOR_EXCESSIVE \<and>
        recursion_depth (snd (decode_cbor lvl (ctxA\<lparr>msgidx := i + 1\<rparr>) 1)) = of_nat (i + 1) + 1"
    using i Suc.prems(1) A by (intro Suc.hyps(1) [OF k]) simp_all
  define c2 where "c2 = snd (decode_cbor lvl (ctxA\<lparr>msgidx := i + 1\<rparr>) 1)"
  from ih have rec: "do_recursive lvl ctxA = (CBOR_EXCESSIVE, c2)"
    by (simp add: do_recursive.simps ggil c2_def prod_eq_iff)
  then have cb: "callbacks lvl (major_type (read_header ctx1)) (read_header ctx1) =
      (CBOR_EXCESSIVE, c2)"
    by (simp add: callbacks.simps ctxA_def [symmetric] A)
  from decode_loop_step [OF g vA [unfolded ctxA_def] cb, of maxitem 0 CBOR_SUCCESS]
  have l: "decode_loop lvl ctx1 maxitem 0 CBOR_SUCCESS = (CBOR_EXCESSIVE, c2)" by simp
  from decode_cbor_enter [OF ctx1_def lvl1 l] ih show ?case
    by (simp add: c2_def)
qed

text \<open>
  Claim C5 says that every call of the decode loop leaves the recursion-depth counter as
  it found it, on every exit path. The early return with \<open>CBOR_EXCESSIVE\<close> comes after
  the increment and skips the decrement at the end of the function (lemma
  \<open>decode_cbor_excessive\<close>). For every maximum level \<open>lvl\<close> below 255 and a message of
  \<open>lvl\<close> nested one-element arrays around an integer, the entry point returns Excessive
  and the counter, 0 at the start of the call, is 1 when the top-level call of the loop
  has returned.
\<close>

theorem depth_unbalanced_after_excessive:
  assumes "lvl < 255" and "0 < bufsz"
  shows "fst (cbor_decode lvl out bufsz (replicate lvl 0x81 @ [0x01]) (lvl + 1)) = CBOR_EXCESSIVE \<and>
         recursion_depth (initial_context out bufsz (replicate lvl 0x81 @ [0x01]) (lvl + 1)) = 0 \<and>
         recursion_depth (snd (cbor_decode lvl out bufsz (replicate lvl 0x81 @ [0x01]) (lvl + 1))) = 1"
proof -
  define ctx0 where "ctx0 = initial_context out bufsz (replicate lvl 0x81 @ [0x01]) (lvl + 1)"
  have "fst (decode_cbor lvl ctx0 0) = CBOR_EXCESSIVE \<and>
        recursion_depth (snd (decode_cbor lvl ctx0 0)) = of_nat 0 + 1"
    using assms by (intro nested_arrays_excessive) (simp_all add: ctx0_def initial_context_def)
  then show ?thesis
    by (simp add: cbor_decode_fst cbor_decode_snd Let_def ctx0_def [symmetric])
      (simp add: ctx0_def initial_context_def)
qed

theorem depth_unbalanced_after_excessive_witness:
  "(8::nat) < 255 \<and> (0::nat) < 1 \<and>
   fst (cbor_decode 8 [0] 1 (replicate 8 0x81 @ [0x01]) (8 + 1)) = CBOR_EXCESSIVE \<and>
   recursion_depth (initial_context [0] 1 (replicate 8 0x81 @ [0x01]) (8 + 1)) = 0 \<and>
   recursion_depth (snd (cbor_decode 8 [0] 1 (replicate 8 0x81 @ [0x01]) (8 + 1))) = 1"
proof -
  have a: "(8::nat) < 255" "(0::nat) < 1" by simp_all
  from depth_unbalanced_after_excessive [OF a, of "[0]"] a show ?thesis by blast
qed

subsection \<open>An array shorter than its declared count\<close>

text \<open>
  Claim C3 says that an array header declaring two items followed by one item and the end
  of the input never decodes to Success, whatever the output capacity. The input
  \<open>0x82 0x01\<close> with a capacity of one byte is decoded with Success.
\<close>

theorem short_array_success_counterexample:
  "\<not> (fst (cbor_decode 8 [0] 1 [0x82, 0x01] 2) \<noteq> CBOR_SUCCESS)"
  by code_simp

text \<open>
  Claim C3, amended. Let the input be the header \<open>0x82\<close> (array of two items) followed by
  a single unsigned-integer item (header \<open>hdr\<close> at most 27 and its payload) and nothing
  else, and let the maximum level be at least 2. The entry point returns Success exactly
  when the capacity equals the number of bytes the item decodes to; it returns Overrun
  for capacity 0 and OutputExhausted for every other capacity. The missing second item is
  not detected.
\<close>

theorem short_array_result:
  fixes hdr :: u8
  assumes lvl: "2 \<le> lvl" and hdr: "hdr \<le> 27"
    and len: "length payload = unat (get_following_bytes hdr)"
  shows "fst (cbor_decode lvl out bufsz (0x82 # hdr # payload) (2 + length payload)) =
           (if bufsz = 0 then CBOR_OVERRUN
            else if bufsz < length payload then CBOR_UNDERRUN
            else if bufsz = max 1 (length payload) then CBOR_SUCCESS
            else CBOR_UNDERRUN)"
proof (cases "bufsz = 0")
  case True
  with lvl show ?thesis
    by (simp add: cbor_decode_def initial_context_def decode_cbor.simps decode_loop.simps Let_def)
next
  case False
  define fb where "fb = get_following_bytes hdr"
  define n where "n = 2 + length payload"
  define inp where "inp = 0x82 # hdr # payload"
  from hdr have h32: "hdr < 32" by (simp add: word_le_nat_alt word_less_nat_alt)
  note hf = uint_hdr_fields [OF h32]
  note fbs = uint_following_bytes [OF hdr, folded fb_def]
  have nfb: "n = 2 + unat fb" by (simp add: n_def len fb_def)
  define ctx0 where "ctx0 = initial_context out bufsz inp n"
  define ctx1 where "ctx1 = ctx0\<lparr>recursion_depth := 1\<rparr>"
  define ctxA where "ctxA = read_header ctx1"
  define ctxB where "ctxB = ctxA\<lparr>msgidx := 1, recursion_depth := 2\<rparr>"
  define ctxC where "ctxC = read_header ctxB"
  \<comment> \<open>fields of the contexts on the way\<close>
  have A: "msgidx ctxA = 0" "msgsize ctxA = n" "bufidx ctxA = 0" "bufsize ctxA = bufsz"
    "major_type ctxA = 4" "additional_info ctxA = 2" "following_bytes ctxA = 0"
    "recursion_depth ctxA = 1" "msg ctxA = inp"
    by (simp_all add: ctxA_def read_header_def ctx1_def ctx0_def initial_context_def inp_def
        hdr_fields_array2)
  have C: "msgidx ctxC = 1" "msgsize ctxC = n" "bufidx ctxC = 0" "bufsize ctxC = bufsz"
    "major_type ctxC = 0" "additional_info ctxC = hdr" "following_bytes ctxC = fb"
    "recursion_depth ctxC = 2"
    by (simp_all add: ctxC_def read_header_def ctxB_def A inp_def hf fb_def)
  \<comment> \<open>the nested call on the single item\<close>
  have gB: "msgidx ctxB < msgsize ctxB" "bufidx ctxB < bufsize ctxB"
    using False by (simp_all add: ctxB_def A nfb)
  have validC: "has_valid_buffers_for_following_bytes ctxC =
      (if bufsz < unat fb then Some CBOR_UNDERRUN else None)"
    using fbs by (simp add: has_valid_buffers_for_following_bytes_def C size_sub_def nfb)
  have ggil: "go_get_item_length ctxA = (2, ctxA\<lparr>msgidx := 1\<rparr>)"
    by (simp add: go_get_item_length_def A INDEFINITE_VALUE_def)
  have vA: "has_valid_buffers_for_following_bytes ctxA = None"
    by (simp add: has_valid_buffers_for_following_bytes_def A size_sub_def nfb
        INDEFINITE_VALUE_def RESERVED_VALUE_def)
  have g1: "msgidx ctx1 < msgsize ctx1" "bufidx ctx1 < bufsize ctx1"
    using False by (simp_all add: ctx1_def ctx0_def initial_context_def nfb)
  have enter0: "ctx1 = ctx0\<lparr>recursion_depth := recursion_depth ctx0 + 1\<rparr>"
    by (simp add: ctx1_def ctx0_def initial_context_def)
  have enterB: "ctxB = (ctxA\<lparr>msgidx := 1\<rparr>)\<lparr>recursion_depth :=
      recursion_depth (ctxA\<lparr>msgidx := 1\<rparr>) + 1\<rparr>"
    by (simp add: ctxB_def A)
  have lvl1: "\<not> lvl < unat (recursion_depth ctx1)" using lvl by (simp add: ctx1_def)
  have lvlB: "\<not> lvl < unat (recursion_depth ctxB)" using lvl by (simp add: ctxB_def)
  have "length payload = unat fb" by (simp add: len fb_def)
  show ?thesis
  proof (cases "bufsz < unat fb")
    case True
    with validC have v: "has_valid_buffers_for_following_bytes (read_header ctxB) = Some CBOR_UNDERRUN"
      by (simp add: ctxC_def)
    have "decode_loop lvl ctxB 2 0 CBOR_SUCCESS = (CBOR_UNDERRUN, ctxC)"
      unfolding ctxC_def by (rule decode_loop_invalid [OF gB v])
    from decode_cbor_enter [OF enterB lvlB this]
    have "do_recursive lvl ctxA = (CBOR_UNDERRUN, ctxC\<lparr>recursion_depth := recursion_depth ctxC - 1\<rparr>)"
      by (simp add: do_recursive.simps ggil)
    then have cb: "callbacks lvl (major_type (read_header ctx1)) (read_header ctx1) =
        (CBOR_UNDERRUN, ctxC\<lparr>recursion_depth := recursion_depth ctxC - 1\<rparr>)"
      by (simp add: callbacks.simps ctxA_def [symmetric] A)
    from decode_loop_step [OF g1 vA [unfolded ctxA_def] cb]
    have "decode_loop lvl ctx1 0 0 CBOR_SUCCESS =
        (CBOR_UNDERRUN, ctxC\<lparr>recursion_depth := recursion_depth ctxC - 1\<rparr>)"
      by simp
    from decode_cbor_enter [OF enter0 lvl1 this]
    have "fst (decode_cbor lvl ctx0 0) = CBOR_UNDERRUN" by simp
    then have "fst (cbor_decode lvl out bufsz inp n) = CBOR_UNDERRUN"
      by (simp add: cbor_decode_fst Let_def ctx0_def)
    with True False \<open>length payload = unat fb\<close> show ?thesis
      by (simp add: inp_def n_def)
  next
    case fits: False
    have fbC: "following_bytes ctxC \<noteq> INDEFINITE_VALUE" using fbs by (simp add: C)
    note du = do_unsigned_integer_fields [OF fbC]
    define ctxD where "ctxD = snd (do_unsigned_integer ctxC)"
    have D: "do_unsigned_integer ctxC = (CBOR_SUCCESS, ctxD)"
      using du(1) by (simp add: ctxD_def prod_eq_iff)
    have Df: "msgidx ctxD = n" "msgsize ctxD = n" "bufsize ctxD = bufsz"
      "bufidx ctxD = max 1 (unat fb)" "recursion_depth ctxD = 2"
      using du(2-6) by (auto simp: ctxD_def C nfb unat_eq_0 max_def not_le Suc_le_eq)
    from validC fits have v: "has_valid_buffers_for_following_bytes (read_header ctxB) = None"
      by (simp add: ctxC_def)
    have cbC: "callbacks lvl (major_type (read_header ctxB)) (read_header ctxB) = (CBOR_SUCCESS, ctxD)"
      by (simp add: callbacks.simps ctxC_def [symmetric] C D)
    have stopD: "decode_loop lvl ctxD 2 (0 + 1) CBOR_SUCCESS = (CBOR_SUCCESS, ctxD)"
      by (rule decode_loop_stop) (simp add: Df)
    from decode_loop_step [OF gB v cbC, of 2 0 CBOR_SUCCESS] stopD
    have "decode_loop lvl ctxB 2 0 CBOR_SUCCESS = (CBOR_SUCCESS, ctxD)"
      by simp
    from decode_cbor_enter [OF enterB lvlB this]
    have "do_recursive lvl ctxA = (CBOR_SUCCESS, ctxD\<lparr>recursion_depth := recursion_depth ctxD - 1\<rparr>)"
      by (simp add: do_recursive.simps ggil)
    then have cb: "callbacks lvl (major_type (read_header ctx1)) (read_header ctx1) =
        (CBOR_SUCCESS, ctxD\<lparr>recursion_depth := recursion_depth ctxD - 1\<rparr>)"
      by (simp add: callbacks.simps ctxA_def [symmetric] A)
    have stop1: "decode_loop lvl (ctxD\<lparr>recursion_depth := recursion_depth ctxD - 1\<rparr>) 0 (0 + 1)
        CBOR_SUCCESS = (CBOR_SUCCESS, ctxD\<lparr>recursion_depth := recursion_depth ctxD - 1\<rparr>)"
      by (rule decode_loop_stop) (simp add: Df)
    from decode_loop_step [OF g1 vA [unfolded ctxA_def] cb, of 0 0 CBOR_SUCCESS] stop1
    have "decode_loop lvl ctx1 0 0 CBOR_SUCCESS =
        (CBOR_SUCCESS, ctxD\<lparr>recursion_depth := recursion_depth ctxD - 1\<rparr>)"
      by simp
    from decode_cbor_enter [OF enter0 lvl1 this]
    have "decode_cbor lvl ctx0 0 = (CBOR_SUCCESS, ctxD\<lparr>recursion_depth := 0\<rparr>)"
      by (simp add: Df)
    then have "fst (cbor_decode lvl out bufsz inp n) =
        (if max 1 (unat fb) < bufsz then CBOR_UNDERRUN else CBOR_SUCCESS)"
      by (simp add: cbor_decode_fst Let_def ctx0_def [symmetric] Df)
    moreover from fits False have "max 1 (unat fb) < bufsz \<longleftrightarrow> bufsz \<noteq> max 1 (unat fb)"
      by (auto simp: max_def)
    ultimately have "fst (cbor_decode lvl out bufsz inp n) =
        (if bufsz = max 1 (unat fb) then CBOR_SUCCESS else CBOR_UNDERRUN)"
      by simp
    with fits False \<open>length payload = unat fb\<close> show ?thesis
      by (simp add: inp_def n_def)
  qed
qed

theorem short_array_result_witness:
  "(2::nat) \<le> 8 \<and> (0x01::u8) \<le> 27 \<and> length ([]::u8 list) = unat (get_following_bytes 0x01) \<and>
   fst (cbor_decode 8 [0] 1 [0x82, 0x01] 2) = CBOR_SUCCESS \<and>
   fst (cbor_decode 8 [] 0 [0x82, 0x01] 2) = CBOR_OVERRUN \<and>
   fst (cbor_decode 8 [0, 0] 2 [0x82, 0x01] 2) = CBOR_UNDERRUN \<and>
   (0x19::u8) \<le> 27 \<and> length [0x01, 0x02 :: u8] = unat (get_following_bytes 0x19) \<and>
   fst (cbor_decode 8 [0] 1 [0x82, 0x19, 0x01, 0x02] 4) = CBOR_UNDERRUN \<and>
   fst (cbor_decode 8 [0, 0] 2 [0x82, 0x19, 0x01, 0x02] 4) = CBOR_SUCCESS"
proof -
  have a: "(2::nat) \<le> 8" by simp
  have b: "(0x01::u8) \<le> 27" by simp
  have c: "length ([]::u8 list) = unat (get_following_bytes 0x01)"
    by (simp add: get_following_bytes_def)
  have d: "(0x19::u8) \<le> 27" by simp
  have e: "length [0x01, 0x02 :: u8] = unat (get_following_bytes 0x19)"
    by (simp add: get_following_bytes_def)
  show ?thesis
    using
      short_array_result [OF a b c, of "[0]" 1] short_array_result [OF a b c, of "[]" 0]
      short_array_result [OF a b c, of "[0, 0]" 2]
      short_array_result [OF a d e, of "[0]" 1] short_array_result [OF a d e, of "[0, 0]" 2]
    by (simp add: get_following_bytes_def)
qed

subsection \<open>States the loop comes to\<close>

text \<open>
  Reading a header changes the three header fields only. Whatever state the loop comes
  to, the input, the sizes and the output memory from the capacity on are those of the
  state it started from. A call of the entry point is a call of \<^verbatim>\<open>decode_cbor\<close> on the
  initial context; if a state is reached at all, the depth check of that call has passed.
\<close>

lemma read_header_fields:
  "bufidx (read_header ctx) = bufidx ctx" "bufsize (read_header ctx) = bufsize ctx"
  "msgidx (read_header ctx) = msgidx ctx" "msgsize (read_header ctx) = msgsize ctx"
  "buf (read_header ctx) = buf ctx" "msg (read_header ctx) = msg ctx"
  "recursion_depth (read_header ctx) = recursion_depth ctx"
  "additional_info (read_header ctx) \<le> 31"
  "following_bytes (read_header ctx) = get_following_bytes (additional_info (read_header ctx))"
  "same_frame ctx (read_header ctx)"
  by (simp_all add: read_header_def get_additional_info_le same_frame_def)

lemma loop_reaches_frame:
  assumes "loop_reaches lvl ctx maxitem item c"
  shows "same_frame ctx c"
  using assms
proof (induction rule: loop_reaches.induct)
  case (here ctx maxitem item)
  show ?case by (rule same_frame_refl)
next
  case (next_item ctx e c2 maxitem item c)
  have b1: "bufidx (read_header ctx) < bufsize (read_header ctx)"
    using next_item.hyps(2) by (simp add: read_header_fields)
  from decode_frame(3) [OF b1 next_item.hyps(3), of lvl "major_type (read_header ctx)"]
    next_item.hyps(4)
  have "same_frame (read_header ctx) c2" by simp
  with read_header_fields(10) [of ctx] have "same_frame ctx c2" by (rule same_frame_trans)
  then show ?case using next_item.IH by (rule same_frame_trans)
next
  case (nested ctx len c1 c maxitem item)
  from go_get_item_length_frame(1) [of "read_header ctx"] nested.hyps(5)
  have "same_frame (read_header ctx) c1" by simp
  then have "same_frame (read_header ctx) (c1\<lparr>recursion_depth := recursion_depth c1 + 1\<rparr>)"
    by (simp add: same_frame_def)
  with read_header_fields(10) [of ctx]
  have "same_frame ctx (c1\<lparr>recursion_depth := recursion_depth c1 + 1\<rparr>)"
    by (rule same_frame_trans)
  then show ?case using nested.IH by (rule same_frame_trans)
qed

lemma decode_reachesI:
  assumes "0 < lvl"
    and "loop_reaches lvl ((initial_context out bufsz inp msgsz)\<lparr>recursion_depth := 1\<rparr>) 0 0 c"
  shows "decode_reaches lvl out bufsz inp msgsz c"
  using assms by (simp add: decode_reaches_def Let_def initial_context_def)

lemma decode_reachesD:
  assumes "decode_reaches lvl out bufsz inp msgsz c"
  defines "ctx1 \<equiv> (initial_context out bufsz inp msgsz)\<lparr>recursion_depth := 1\<rparr>"
  shows "loop_reaches lvl ctx1 0 0 c"
    and "decode_cbor lvl (initial_context out bufsz inp msgsz) 0 =
           (case decode_loop lvl ctx1 0 0 CBOR_SUCCESS of (e, c2) \<Rightarrow>
              (e, c2\<lparr>recursion_depth := recursion_depth c2 - 1\<rparr>))"
  using assms(1)
  by (simp_all add: decode_reaches_def Let_def initial_context_def decode_cbor.simps ctx1_def)

lemma decode_reaches_result:
  assumes "decode_reaches lvl out bufsz inp msgsz c"
    and "decode_loop lvl ((initial_context out bufsz inp msgsz)\<lparr>recursion_depth := 1\<rparr>) 0 0
           CBOR_SUCCESS = (e, c2)"
  shows "fst (cbor_decode lvl out bufsz inp msgsz) =
           (if e = CBOR_SUCCESS
            then (if msgidx c2 < msgsize c2 then CBOR_OVERRUN
                  else if bufidx c2 < bufsize c2 then CBOR_UNDERRUN else CBOR_SUCCESS)
            else e)"
    and "snd (cbor_decode lvl out bufsz inp msgsz) = c2\<lparr>recursion_depth := recursion_depth c2 - 1\<rparr>"
  using decode_reachesD(2) [OF assms(1)] assms(2)
  by (simp_all add: cbor_decode_fst cbor_decode_snd Let_def)

text \<open>
  When the buffer is full at a state the loop comes to, every enclosing loop leaves with
  Success in that state; with input left, the entry point then returns Overrun.
\<close>

lemma loop_reaches_full:
  assumes "loop_reaches lvl ctx maxitem item c" and "bufsize c \<le> bufidx c"
  shows "\<exists>d. decode_loop lvl ctx maxitem item CBOR_SUCCESS =
           (CBOR_SUCCESS, c\<lparr>recursion_depth := d\<rparr>)"
  using assms
proof (induction rule: loop_reaches.induct)
  case (here ctx maxitem item)
  then have "decode_loop lvl ctx maxitem item CBOR_SUCCESS = (CBOR_SUCCESS, ctx)"
    by (intro decode_loop_stop) simp
  then have "decode_loop lvl ctx maxitem item CBOR_SUCCESS =
      (CBOR_SUCCESS, ctx\<lparr>recursion_depth := recursion_depth ctx\<rparr>)"
    by simp
  then show ?case by blast
next
  case (next_item ctx e2 c2 maxitem item c)
  from decode_loop_step [OF next_item.hyps(1,2,3,4), of maxitem item CBOR_SUCCESS]
    next_item.hyps(5,6)
  have "decode_loop lvl ctx maxitem item CBOR_SUCCESS =
      decode_loop lvl c2 maxitem (item + 1) CBOR_SUCCESS"
    by auto
  with next_item.IH [OF next_item.prems] show ?case by simp
next
  case (nested ctx len c1 c maxitem item)
  define c1' where "c1' = c1\<lparr>recursion_depth := recursion_depth c1 + 1\<rparr>"
  from nested.IH [OF nested.prems] obtain d where
    l: "decode_loop lvl c1' len 0 CBOR_SUCCESS = (CBOR_SUCCESS, c\<lparr>recursion_depth := d\<rparr>)"
    by (auto simp: c1'_def)
  define c2 where "c2 = c\<lparr>recursion_depth := d - 1\<rparr>"
  have nl: "\<not> lvl < unat (recursion_depth c1')" using nested.hyps(6) by (simp add: c1'_def)
  from decode_cbor_enter [OF c1'_def nl l] nested.hyps(5)
  have "do_recursive lvl (read_header ctx) = (CBOR_SUCCESS, c2)"
    by (simp add: do_recursive.simps c2_def)
  with nested.hyps(4)
  have cb: "callbacks lvl (major_type (read_header ctx)) (read_header ctx) = (CBOR_SUCCESS, c2)"
    by (auto simp: callbacks.simps)
  have "decode_loop lvl c2 maxitem (item + 1) CBOR_SUCCESS = (CBOR_SUCCESS, c2)"
    using nested.prems by (intro decode_loop_stop) (simp add: c2_def)
  with decode_loop_step [OF nested.hyps(1,2,3) cb, of maxitem item CBOR_SUCCESS]
  have "decode_loop lvl ctx maxitem item CBOR_SUCCESS = (CBOR_SUCCESS, c2)" by simp
  then show ?case unfolding c2_def by blast
qed

lemma decode_reaches_overrun:
  assumes dr: "decode_reaches lvl out bufsz inp msgsz c"
    and "msgidx c < msgsz" and "bufsz \<le> bufidx c"
  shows "fst (cbor_decode lvl out bufsz inp msgsz) = CBOR_OVERRUN"
proof -
  define ctx1 where "ctx1 = (initial_context out bufsz inp msgsz)\<lparr>recursion_depth := 1\<rparr>"
  from decode_reachesD(1) [OF dr] have lr: "loop_reaches lvl ctx1 0 0 c"
    by (simp add: ctx1_def)
  from loop_reaches_frame [OF lr] have cf: "bufsize c = bufsz" "msgsize c = msgsz"
    by (simp_all add: same_frame_def ctx1_def initial_context_def)
  from loop_reaches_full [OF lr] assms(3) obtain d where
    l: "decode_loop lvl ctx1 0 0 CBOR_SUCCESS = (CBOR_SUCCESS, c\<lparr>recursion_depth := d\<rparr>)"
    by (auto simp: cf)
  from decode_reaches_result(1) [OF dr l [unfolded ctx1_def]] assms(2) show ?thesis
    by (simp add: cf)
qed

subsection \<open>The Break code\<close>

lemma do_negative_integer_fst:
  "fst (do_negative_integer ctx) = CBOR_SUCCESS \<or> fst (do_negative_integer ctx) = CBOR_ILLEGAL"
  using do_unsigned_integer_fst [of ctx]
  by (auto simp: do_negative_integer_def Let_def split: prod.splits if_splits)

lemma do_string_fst:
  "fst (do_string ctx) = CBOR_SUCCESS \<or> fst (do_string ctx) = CBOR_ILLEGAL"
  by (auto simp: do_string_def Let_def split: prod.splits)

lemma has_valid_Some:
  "has_valid_buffers_for_following_bytes ctx = Some e \<Longrightarrow> e = CBOR_ILLEGAL \<or> e = CBOR_UNDERRUN"
  by (auto simp: has_valid_buffers_for_following_bytes_def split: if_splits)

lemma do_float_and_other_break:
  assumes "fst (do_float_and_other ctx) = CBOR_BREAK"
  shows "following_bytes ctx = INDEFINITE_VALUE \<and>
         snd (do_float_and_other ctx) = ctx\<lparr>msgidx := msgidx ctx + 1\<rparr>"
proof (rule ccontr)
  assume n: "\<not> ?thesis"
  then have ni: "following_bytes ctx \<noteq> INDEFINITE_VALUE"
    by (auto simp: do_float_and_other_def)
  define ctx1 where "ctx1 = (if following_bytes ctx = 1
                    then ctx\<lparr>following_bytes := 0,
                             msgidx := msgidx ctx + 1,
                             additional_info := msg ctx ! (msgidx ctx + 1)\<rparr>
                    else ctx)"
  show False
  proof (cases "has_valid_buffers_for_following_bytes ctx1")
    case None
    with ni have "fst (do_float_and_other ctx) = fst (do_unsigned_integer ctx1)"
      by (simp add: do_float_and_other_def Let_def ctx1_def [symmetric] split: prod.splits)
    with assms do_unsigned_integer_fst [of ctx1] show False by (simp split: if_splits)
  next
    case (Some e)
    with ni have "fst (do_float_and_other ctx) = e"
      by (simp add: do_float_and_other_def Let_def ctx1_def [symmetric])
    with assms has_valid_Some [OF Some] show False by auto
  qed
qed

lemma decode_break:
  "fst (decode_cbor lvl ctx maxitem) = CBOR_BREAK \<longrightarrow>
     at_break_end (snd (decode_cbor lvl ctx maxitem))"
  "err \<noteq> CBOR_BREAK \<longrightarrow> fst (decode_loop lvl ctx maxitem item err) = CBOR_BREAK \<longrightarrow>
     at_break_end (snd (decode_loop lvl ctx maxitem item err))"
  "fst (callbacks lvl mt ctx) = CBOR_BREAK \<longrightarrow>
     at_break_end (snd (callbacks lvl mt ctx)) \<or>
     (mt \<notin> {0, 1, 2, 3, 4, 5, 6} \<and> following_bytes ctx = INDEFINITE_VALUE \<and>
      snd (callbacks lvl mt ctx) = ctx\<lparr>msgidx := msgidx ctx + 1\<rparr>)"
  "fst (do_recursive lvl ctx) = CBOR_BREAK \<longrightarrow> at_break_end (snd (do_recursive lvl ctx))"
proof (induct lvl ctx maxitem and lvl ctx maxitem item err and lvl mt ctx and lvl ctx
    rule: decode_cbor_decode_loop_callbacks_do_recursive.induct)
  case (1 lvl ctx maxitem)
  define ctx1 where "ctx1 = ctx\<lparr>recursion_depth := recursion_depth ctx + 1\<rparr>"
  show ?case
  proof (cases "lvl < unat (recursion_depth ctx1)")
    case True
    then show ?thesis by (simp add: decode_cbor.simps Let_def ctx1_def [symmetric])
  next
    case False
    obtain e c2 where l: "decode_loop lvl ctx1 maxitem 0 CBOR_SUCCESS = (e, c2)" by force
    from "1" [OF ctx1_def False] l have "e = CBOR_BREAK \<longrightarrow> at_break_end c2" by simp
    then have "e = CBOR_BREAK \<longrightarrow> at_break_end (c2\<lparr>recursion_depth := recursion_depth c2 - 1\<rparr>)"
      by (auto simp: at_break_end_def)
    with decode_cbor_enter [OF ctx1_def False l] show ?thesis by simp
  qed
next
  case (2 lvl ctx maxitem item err)
  show ?case
  proof (cases "msgidx ctx < msgsize ctx \<and> bufidx ctx < bufsize ctx")
    case False
    then show ?thesis by (simp add: decode_loop_stop)
  next
    case True
    then have g: "msgidx ctx < msgsize ctx" "bufidx ctx < bufsize ctx" by simp_all
    note rh = read_header_def [of ctx]
    show ?thesis
    proof (cases "has_valid_buffers_for_following_bytes (read_header ctx)")
      case (Some e)
      from decode_loop_invalid [OF g Some] has_valid_Some [OF Some] show ?thesis by auto
    next
      case None
      obtain e2 c2 where cb: "callbacks lvl (major_type (read_header ctx)) (read_header ctx) = (e2, c2)"
        by force
      note step = decode_loop_step [OF g None cb, of maxitem item err]
      have direct: "at_break_end c2" if "e2 = CBOR_BREAK" "msgidx c2 = msgsize c2"
      proof -
        from "2"(1) [OF True refl rh None] cb that(1)
        consider "at_break_end c2"
          | "major_type (read_header ctx) \<notin> {0, 1, 2, 3, 4, 5, 6}"
            "following_bytes (read_header ctx) = INDEFINITE_VALUE"
            "c2 = (read_header ctx)\<lparr>msgidx := msgidx (read_header ctx) + 1\<rparr>"
          by (auto simp: rh [symmetric])
        then show ?thesis
        proof cases
          case 1
          then show ?thesis .
        next
          case 2
          from 2(1,2) have "msg ctx ! msgidx ctx = 0xff"
            by (intro break_marker_byte) (simp_all add: rh)
          moreover from 2(3) that(2) have "msgsize c2 = msgidx ctx + 1" "msgidx c2 = msgidx ctx + 1"
            "msg c2 = msg ctx"
            by (simp_all add: rh)
          ultimately show ?thesis by (simp add: at_break_end_def)
        qed
      qed
      show ?thesis
      proof (cases "\<not> (e2 = CBOR_BREAK \<and> msgidx c2 = msgsize c2) \<and>
           \<not> (e2 \<noteq> CBOR_BREAK \<and> e2 \<noteq> CBOR_SUCCESS) \<and>
           \<not> (maxitem \<le> item + 1 \<and> 0 < maxitem)")
        case go: True
        from "2"(2) [OF True refl rh None cb [symmetric]] go
        have "fst (decode_loop lvl c2 maxitem (item + 1) CBOR_SUCCESS) = CBOR_BREAK \<longrightarrow>
              at_break_end (snd (decode_loop lvl c2 maxitem (item + 1) CBOR_SUCCESS))"
          by blast
        moreover from step go
        have "decode_loop lvl ctx maxitem item err =
              decode_loop lvl c2 maxitem (item + 1) CBOR_SUCCESS"
          by (cases e2) auto
        ultimately show ?thesis by simp
      next
        case False
        with step have r: "decode_loop lvl ctx maxitem item err =
            (if e2 = CBOR_BREAK \<and> msgidx c2 = msgsize c2 then (e2, c2)
             else if e2 \<noteq> CBOR_BREAK \<and> e2 \<noteq> CBOR_SUCCESS then (e2, c2)
             else (CBOR_SUCCESS, c2))"
          by (cases e2) auto
        show ?thesis using direct by (auto simp: r)
      qed
    qed
  qed
next
  case (3 lvl mt ctx)
  show ?case
    using "3.hyps" do_unsigned_integer_fst [of ctx] do_negative_integer_fst [of ctx]
      do_string_fst [of ctx] do_float_and_other_break [of ctx]
    by (auto simp: callbacks.simps do_tag_def split: if_splits)
next
  case (4 lvl ctx)
  obtain len c1 where g: "go_get_item_length ctx = (len, c1)" by force
  from "4" [OF g [symmetric]] g show ?case by (simp add: do_recursive.simps)
qed

text \<open>
  At a break marker the validator passes and the handler returns Break, having advanced
  the read cursor by one and written nothing. If the marker is the last byte of the input
  the loop leaves with Break, and so does every enclosing loop, up to the entry point.
\<close>

lemma break_marker_fields:
  "get_major_type 0xff = 7" "get_additional_info 0xff = 31"
  "get_following_bytes 31 = INDEFINITE_VALUE"
  by (simp_all add: get_major_type_def get_additional_info_def ADDITIONAL_INFO_MASK_def
      get_following_bytes_def)

lemma break_marker_item:
  assumes "msg ctx ! msgidx ctx = 0xff"
  shows "has_valid_buffers_for_following_bytes (read_header ctx) = None"
    and "callbacks lvl (major_type (read_header ctx)) (read_header ctx) =
           (CBOR_BREAK, (read_header ctx)\<lparr>msgidx := msgidx ctx + 1\<rparr>)"
  using assms
  by (simp_all add: read_header_def break_marker_fields has_valid_buffers_for_following_bytes_def
      callbacks.simps do_float_and_other_def INDEFINITE_VALUE_def RESERVED_VALUE_def)

lemma loop_reaches_break:
  assumes "loop_reaches lvl ctx maxitem item c"
    and "msgidx c + 1 = msgsize c" and "bufidx c < bufsize c"
    and "msg c ! msgidx c = 0xff"
  shows "\<exists>d. decode_loop lvl ctx maxitem item err =
           (CBOR_BREAK, (read_header c)\<lparr>msgidx := msgsize c, recursion_depth := d\<rparr>)"
  using assms
proof (induction arbitrary: err rule: loop_reaches.induct)
  case (here ctx maxitem item)
  from here(1) have g: "msgidx ctx < msgsize ctx" by simp
  note b1 = break_marker_item(1) [OF here(3)]
  note b2 = break_marker_item(2) [OF here(3), of lvl]
  from decode_loop_step [OF g here(2) b1 b2, of maxitem item err] here(1)
  have "decode_loop lvl ctx maxitem item err =
      (CBOR_BREAK, (read_header ctx)\<lparr>msgidx := msgsize ctx\<rparr>)"
    by (simp add: read_header_fields)
  then have "decode_loop lvl ctx maxitem item err =
      (CBOR_BREAK, (read_header ctx)\<lparr>msgidx := msgsize ctx,
         recursion_depth := recursion_depth ctx\<rparr>)"
    by (simp add: read_header_def)
  then show ?case by blast
next
  case (next_item ctx e2 c2 maxitem item c)
  from decode_loop_step [OF next_item.hyps(1,2,3,4), of maxitem item err] next_item.hyps(5,6)
  have "decode_loop lvl ctx maxitem item err = decode_loop lvl c2 maxitem (item + 1) CBOR_SUCCESS"
    by auto
  with next_item.IH [OF next_item.prems, of CBOR_SUCCESS] show ?case by simp
next
  case (nested ctx len c1 c maxitem item)
  define c1' where "c1' = c1\<lparr>recursion_depth := recursion_depth c1 + 1\<rparr>"
  from nested.IH [OF nested.prems, of CBOR_SUCCESS] obtain d where
    l: "decode_loop lvl c1' len 0 CBOR_SUCCESS =
      (CBOR_BREAK, (read_header c)\<lparr>msgidx := msgsize c, recursion_depth := d\<rparr>)"
    by (auto simp: c1'_def)
  define c2 where "c2 = (read_header c)\<lparr>msgidx := msgsize c, recursion_depth := d - 1\<rparr>"
  have nl: "\<not> lvl < unat (recursion_depth c1')" using nested.hyps(6) by (simp add: c1'_def)
  from decode_cbor_enter [OF c1'_def nl l] nested.hyps(5)
  have "do_recursive lvl (read_header ctx) = (CBOR_BREAK, c2)"
    by (simp add: do_recursive.simps c2_def)
  with nested.hyps(4)
  have cb: "callbacks lvl (major_type (read_header ctx)) (read_header ctx) = (CBOR_BREAK, c2)"
    by (auto simp: callbacks.simps)
  have "msgidx c2 = msgsize c2" by (simp add: c2_def read_header_fields)
  with decode_loop_step [OF nested.hyps(1,2,3) cb, of maxitem item err]
  have "decode_loop lvl ctx maxitem item err = (CBOR_BREAK, c2)" by simp
  then show ?case unfolding c2_def by blast
qed

text \<open>
  Claim C4 says that the entry point never returns Break. For the input \<open>0xff\<close> (a lone
  break marker) and a capacity of one byte it returns Break.
\<close>

theorem break_returned_counterexample:
  "\<not> (fst (cbor_decode 8 [0] 1 [0xff] 1) \<noteq> CBOR_BREAK)"
  by code_simp

text \<open>
  Claim C4, amended. The entry point does return the Break code to its caller.
  Whenever the decode loop, at any nesting depth, stands at a break marker \<open>0xff\<close> that
  is the last byte of the input while output room is left, the entry point returns
  Break, and the marker has written nothing (\<open>0xff\<close> with capacity 1; \<open>0x9f 0x01 0xff\<close>
  with capacity 2). Whenever the entry point returns Break, the whole input has been
  consumed and its last byte is \<open>0xff\<close>. When the loop, at any depth, stands with the
  output full and input left (a break marker or anything else), that input is not read
  and the entry point returns Overrun (\<open>0x01 0xff\<close> with capacity 1; \<open>0xff\<close> with capacity
  0). A break marker that is followed by more input, met by the loop with output room
  left, is counted as one item and writes nothing; decoding continues with the byte after
  it, unless the marker completes the item count of the loop, which then leaves with
  Success.
\<close>

theorem break_returned_at_final_marker:
  "(fst (cbor_decode lvl out bufsz inp msgsz) = CBOR_BREAK \<longrightarrow>
      msgidx (snd (cbor_decode lvl out bufsz inp msgsz)) = msgsz \<and>
      0 < msgsz \<and> inp ! (msgsz - 1) = 0xff) \<and>
   (decode_reaches lvl out bufsz inp msgsz c \<and>
    msgidx c + 1 = msgsz \<and> bufidx c < bufsz \<and> inp ! msgidx c = 0xff \<longrightarrow>
      fst (cbor_decode lvl out bufsz inp msgsz) = CBOR_BREAK \<and>
      buf (snd (cbor_decode lvl out bufsz inp msgsz)) = buf c \<and>
      bufidx (snd (cbor_decode lvl out bufsz inp msgsz)) = bufidx c) \<and>
   (decode_reaches lvl out bufsz inp msgsz c \<and> msgidx c < msgsz \<and> bufsz \<le> bufidx c \<longrightarrow>
      fst (cbor_decode lvl out bufsz inp msgsz) = CBOR_OVERRUN) \<and>
   (msgidx ctx + 1 < msgsize ctx \<and> bufidx ctx < bufsize ctx \<and>
    msg ctx ! msgidx ctx = 0xff \<longrightarrow>
      decode_loop lvl ctx maxitem item err =
        (if maxitem \<le> item + 1 \<and> 0 < maxitem
         then (CBOR_SUCCESS, (read_header ctx)\<lparr>msgidx := msgidx ctx + 1\<rparr>)
         else decode_loop lvl ((read_header ctx)\<lparr>msgidx := msgidx ctx + 1\<rparr>) maxitem
                (item + 1) CBOR_SUCCESS)) \<and>
   fst (cbor_decode 8 [0] 1 [0xff] 1) = CBOR_BREAK \<and>
   fst (cbor_decode 8 [0, 0] 2 [0x9f, 0x01, 0xff] 3) = CBOR_BREAK \<and>
   fst (cbor_decode 8 [0] 1 [0x01, 0xff] 2) = CBOR_OVERRUN \<and>
   fst (cbor_decode 8 [] 0 [0xff] 1) = CBOR_OVERRUN"
proof -
  define r where "r = cbor_decode lvl out bufsz inp msgsz"
  have a: "msgidx (snd r) = msgsz \<and> 0 < msgsz \<and> inp ! (msgsz - 1) = 0xff"
    if "fst r = CBOR_BREAK"
  proof -
    define q where "q = decode_cbor lvl (initial_context out bufsz inp msgsz) 0"
    from that have "fst q = CBOR_BREAK"
      by (simp add: r_def cbor_decode_fst Let_def q_def split: if_splits)
    with decode_break(1) [of lvl "initial_context out bufsz inp msgsz" 0]
    have "at_break_end (snd q)" by (simp add: q_def)
    moreover have "msgsize (snd q) = msgsz" "msg (snd q) = inp"
      unfolding q_def by (simp_all add: decode_cbor_frame_sizes initial_context_def)
    ultimately show ?thesis
      by (auto simp: at_break_end_def r_def cbor_decode_snd q_def [symmetric])
  qed
  have b: "fst r = CBOR_BREAK \<and> buf (snd r) = buf c \<and> bufidx (snd r) = bufidx c"
    if dr: "decode_reaches lvl out bufsz inp msgsz c"
      and m: "msgidx c + 1 = msgsz" "bufidx c < bufsz" "inp ! msgidx c = 0xff"
  proof -
    define ctx1 where "ctx1 = (initial_context out bufsz inp msgsz)\<lparr>recursion_depth := 1\<rparr>"
    from decode_reachesD(1) [OF dr] have lr: "loop_reaches lvl ctx1 0 0 c"
      by (simp add: ctx1_def)
    from loop_reaches_frame [OF lr]
    have cf: "bufsize c = bufsz" "msgsize c = msgsz" "msg c = inp"
      by (simp_all add: same_frame_def ctx1_def initial_context_def)
    from loop_reaches_break [OF lr, of CBOR_SUCCESS] m obtain d where
      l: "decode_loop lvl ctx1 0 0 CBOR_SUCCESS =
        (CBOR_BREAK, (read_header c)\<lparr>msgidx := msgsize c, recursion_depth := d\<rparr>)"
      by (auto simp: cf)
    from decode_reaches_result [OF dr l [unfolded ctx1_def], folded r_def]
    show ?thesis by (simp add: read_header_fields)
  qed
  have c: "decode_loop lvl ctx maxitem item err =
        (if maxitem \<le> item + 1 \<and> 0 < maxitem
         then (CBOR_SUCCESS, (read_header ctx)\<lparr>msgidx := msgidx ctx + 1\<rparr>)
         else decode_loop lvl ((read_header ctx)\<lparr>msgidx := msgidx ctx + 1\<rparr>) maxitem
                (item + 1) CBOR_SUCCESS)"
    if "msgidx ctx + 1 < msgsize ctx" "bufidx ctx < bufsize ctx" "msg ctx ! msgidx ctx = 0xff"
  proof -
    from that(1) have g: "msgidx ctx < msgsize ctx" by simp
    note b1 = break_marker_item(1) [OF that(3)]
    note b2 = break_marker_item(2) [OF that(3), of lvl]
    from decode_loop_step [OF g that(2) b1 b2, of maxitem item err] that(1)
    show ?thesis by (simp add: read_header_fields)
  qed
  have e: "fst (cbor_decode 8 [0] 1 [0xff] 1) = CBOR_BREAK"
    "fst (cbor_decode 8 [0, 0] 2 [0x9f, 0x01, 0xff] 3) = CBOR_BREAK"
    "fst (cbor_decode 8 [0] 1 [0x01, 0xff] 2) = CBOR_OVERRUN"
    "fst (cbor_decode 8 [] 0 [0xff] 1) = CBOR_OVERRUN"
    by code_simp+
  from a b c e decode_reaches_overrun [of lvl out bufsz inp msgsz c] show ?thesis
    unfolding r_def by blast
qed

theorem break_returned_at_final_marker_witness:
  "decode_reaches 8 [0, 0] 2 [0x9f, 0x01, 0xff] 3
     \<lparr>buf = [1, 0], bufsize = 2, bufidx = 1, msg = [0x9f, 0x01, 0xff], msgsize = 3,
      msgidx = 2, major_type = 0, additional_info = 1, following_bytes = 0,
      recursion_depth = 2\<rparr> \<and>
   fst (cbor_decode 8 [0, 0] 2 [0x9f, 0x01, 0xff] 3) = CBOR_BREAK \<and>
   msgidx (snd (cbor_decode 8 [0, 0] 2 [0x9f, 0x01, 0xff] 3)) = 3 \<and>
   buf (snd (cbor_decode 8 [0, 0] 2 [0x9f, 0x01, 0xff] 3)) = [1, 0] \<and>
   bufidx (snd (cbor_decode 8 [0, 0] 2 [0x9f, 0x01, 0xff] 3)) = 1 \<and>
   decode_loop 8 ((initial_context [0] 1 [0xff, 0x05] 2)\<lparr>recursion_depth := 1\<rparr>) 0 0
       CBOR_SUCCESS =
     decode_loop 8
       \<lparr>buf = [0], bufsize = 1, bufidx = 0, msg = [0xff, 0x05], msgsize = 2, msgidx = 1,
        major_type = 7, additional_info = 31, following_bytes = 0xff,
        recursion_depth = 1\<rparr> 0 1 CBOR_SUCCESS \<and>
   fst (cbor_decode 8 [0] 1 [0xff, 0x05] 2) = CBOR_SUCCESS \<and>
   buf (snd (cbor_decode 8 [0] 1 [0xff, 0x05] 2)) = [5] \<and>
   decode_reaches 8 [0] 1 [0x01, 0xff] 2
     \<lparr>buf = [1], bufsize = 1, bufidx = 1, msg = [0x01, 0xff], msgsize = 2,
      msgidx = 1, major_type = 0, additional_info = 1, following_bytes = 0,
      recursion_depth = 1\<rparr> \<and>
   fst (cbor_decode 8 [0] 1 [0x01, 0xff] 2) = CBOR_OVERRUN"
proof -
  let ?B = "(initial_context [0] 1 [0x01, 0xff] 2)\<lparr>recursion_depth := 1\<rparr>"
  let ?cB = "\<lparr>buf = [1], bufsize = 1, bufidx = 1, msg = [0x01, 0xff :: u8], msgsize = 2,
      msgidx = 1, major_type = 0, additional_info = 1, following_bytes = 0,
      recursion_depth = 1\<rparr>"
  have "loop_reaches 8 ?B 0 0
      (snd (callbacks 8 (major_type (read_header ?B)) (read_header ?B)))"
    by (rule loop_reaches.next_item [OF _ _ _ surjective_pairing _ _ loop_reaches.here];
        code_simp)
  moreover have "snd (callbacks 8 (major_type (read_header ?B)) (read_header ?B)) = ?cB"
    by code_simp
  ultimately have "loop_reaches 8 ?B 0 0 ?cB" by (simp only:)
  then have rB: "decode_reaches 8 [0] 1 [0x01, 0xff] 2 ?cB"
    by (intro decode_reachesI) simp_all
  have hB: "msgidx ?cB < 2" "1 \<le> bufidx ?cB" by simp_all
  let ?A = "(initial_context [0, 0] 2 [0x9f, 0x01, 0xff] 3)\<lparr>recursion_depth := 1\<rparr>"
  let ?I = "(snd (go_get_item_length (read_header ?A)))\<lparr>recursion_depth :=
         recursion_depth (snd (go_get_item_length (read_header ?A))) + 1\<rparr>"
  let ?c = "\<lparr>buf = [1, 0], bufsize = 2, bufidx = 1, msg = [0x9f, 0x01, 0xff :: u8],
      msgsize = 3, msgidx = 2, major_type = 0, additional_info = 1, following_bytes = 0,
      recursion_depth = 2\<rparr>"
  let ?F = "(initial_context [0] 1 [0xff, 0x05] 2)\<lparr>recursion_depth := 1\<rparr>"
  have "loop_reaches 8 ?I (fst (go_get_item_length (read_header ?A))) 0
      (snd (callbacks 8 (major_type (read_header ?I)) (read_header ?I)))"
    by (rule loop_reaches.next_item [OF _ _ _ surjective_pairing _ _ loop_reaches.here];
        code_simp)
  moreover have "snd (callbacks 8 (major_type (read_header ?I)) (read_header ?I)) = ?c"
    by code_simp
  ultimately have inner: "loop_reaches 8 ?I (fst (go_get_item_length (read_header ?A))) 0 ?c"
    by (simp only:)
  have "loop_reaches 8 ?A 0 0 ?c"
    by (rule loop_reaches.nested [OF _ _ _ _ surjective_pairing _ inner]; code_simp)
  then have r: "decode_reaches 8 [0, 0] 2 [0x9f, 0x01, 0xff] 3 ?c"
    by (intro decode_reachesI) simp_all
  have h: "msgidx ?c + 1 = 3" "bufidx ?c < 2" "[0x9f, 0x01, 0xff :: u8] ! msgidx ?c = 0xff"
    by simp_all
  have f: "msgidx ?F + 1 < msgsize ?F" "bufidx ?F < bufsize ?F" "msg ?F ! msgidx ?F = 0xff"
    by code_simp+
  have g: "(read_header ?F)\<lparr>msgidx := msgidx ?F + 1\<rparr> =
      \<lparr>buf = [0], bufsize = 1, bufidx = 0, msg = [0xff, 0x05], msgsize = 2, msgidx = 1,
        major_type = 7, additional_info = 31, following_bytes = 0xff,
        recursion_depth = 1\<rparr>"
    by code_simp
  have k: "fst (cbor_decode 8 [0] 1 [0xff, 0x05] 2) = CBOR_SUCCESS"
    "buf (snd (cbor_decode 8 [0] 1 [0xff, 0x05] 2)) = [5]"
    by code_simp+
  from break_returned_at_final_marker [of 8 "[0, 0]" 2 "[0x9f, 0x01, 0xff]" 3 ?c ?F 0 0 CBOR_SUCCESS]
    break_returned_at_final_marker [of 8 "[0]" 1 "[0x01, 0xff]" 2 ?cB ?F 0 0 CBOR_SUCCESS]
    r h f g k rB hB
  show ?thesis by simp
qed


subsection \<open>The negative-integer handler\<close>

text \<open>
  The 64-bit accumulator is read from and written to memory byte by byte; the lemmas
  relate its bits to those bytes. \<open>do_negative_integer_result\<close> then gives the cursor and
  every output byte after the handler, in terms of the bytes the unsigned decoder left
  (\<open>c1\<close>): the \<open>ds\<close> data bytes are complemented, the rest of the first four bytes (as far
  as the capacity reaches) is \<open>0xff\<close>, everything else is untouched.
\<close>

lemma bit_u64_of_bytes:
  "bit (u64_of_bytes bs) n \<longleftrightarrow>
     n < 64 \<and> n div 8 < length bs \<and> bit (bs ! (n div 8)) (n mod 8)"
proof (induction bs arbitrary: n)
  case Nil
  then show ?case by simp
next
  case (Cons b bs)
  show ?case
  proof (cases "n < 8")
    case True
    then show ?thesis
      by (simp add: bit_or_iff bit_ucast_iff bit_push_bit_iff)
  next
    case False
    then have d: "n div 8 = Suc ((n - 8) div 8)" and m: "n mod 8 = (n - 8) mod 8"
      by (simp_all add: le_div_geq le_mod_geq)
    from False have nb: "\<not> bit b n"
      using bit_imp_le_length [of b n] by auto
    from False show ?thesis
      by (auto simp add: bit_or_iff bit_ucast_iff bit_push_bit_iff Cons.IH d m nb)
  qed
qed

lemma length_bytes_of_u64 [simp]: "length (bytes_of_u64 v) = 8"
  by (simp add: bytes_of_u64_def)

lemma bytes_of_u64_nth:
  "k < 8 \<Longrightarrow> bytes_of_u64 v ! k = ucast (drop_bit (8 * k) v)"
  by (simp add: bytes_of_u64_def)

lemma bytes_of_not_u64_of_bytes:
  assumes "k < 8" and "length bs = 8"
  shows "bytes_of_u64 (NOT (u64_of_bytes bs)) ! k = NOT (bs ! k)"
proof (rule bit_word_eqI)
  fix n
  assume "n < LENGTH(8)"
  then have n: "n < 8" by simp
  with assms(1) have lt: "8 * k + n < 64" by simp
  from n have dm: "(8 * k + n) div 8 = k" "(8 * k + n) mod 8 = n" by simp_all
  show "bit (bytes_of_u64 (NOT (u64_of_bytes bs)) ! k) n \<longleftrightarrow> bit (NOT (bs ! k)) n"
    using assms n lt
    by (simp add: bytes_of_u64_nth bit_ucast_iff bit_drop_bit_eq bit_not_iff
        bit_u64_of_bytes dm)
qed

lemma u64_msb_test:
  assumes "n < 64"
  shows "u64_of_bytes bs AND push_bit n 1 \<noteq> 0 \<longleftrightarrow>
           n div 8 < length bs \<and> bit (bs ! (n div 8)) (n mod 8)"
proof -
  have "u64_of_bytes bs AND push_bit n 1 \<noteq> 0 \<longleftrightarrow> bit (u64_of_bytes bs) n"
    by (rule bit_iff_and_push_bit_not_eq_0 [symmetric])
  with assms show ?thesis by (simp only: bit_u64_of_bytes) simp
qed


lemma unat_msb_bit:
  assumes "1 \<le> ds" and "ds \<le> 8"
  shows "unat ((of_nat ds :: u8) * 8 - 1) = 8 * ds - 1"
proof -
  have "(of_nat ds :: u8) * 8 - 1 = of_nat (8 * ds - 1)"
    using assms by (simp add: of_nat_diff mult.commute)
  moreover from assms have "8 * ds - 1 < 256" by simp
  ultimately show ?thesis by (simp add: unat_of_nat_u8)
qed


lemma do_unsigned_integer_length:
  "length (buf (snd (do_unsigned_integer ctx))) = length (buf ctx)"
  by (simp add: do_unsigned_integer_def Let_def)

lemma do_negative_integer_result:
  assumes g: "bufidx ctx < bufsize ctx" and cap: "bufsize ctx \<le> length (buf ctx)"
    and v: "has_valid_buffers_for_following_bytes ctx = None"
    and ni: "following_bytes ctx \<noteq> INDEFINITE_VALUE"
    and le8: "unat (following_bytes ctx) \<le> 8"
  defines "ds \<equiv> (if following_bytes ctx = 0 then 1 else unat (following_bytes ctx))"
    and "c1 \<equiv> snd (do_unsigned_integer ctx)"
    and "c \<equiv> snd (do_negative_integer ctx)"
  shows "fst (do_negative_integer ctx) = CBOR_SUCCESS"
    and "bufidx c = bufidx ctx +
           (if ds < 8 \<and> bit (buf c1 ! (bufidx ctx + ds - 1)) 7 then 2 * ds else ds)"
    and "j < length (buf ctx) \<Longrightarrow> buf c ! j =
           (if bufidx ctx \<le> j \<and> j < bufidx ctx + ds then NOT (buf c1 ! j)
            else if bufidx ctx \<le> j \<and> j < bufidx ctx + min (bufsize ctx - bufidx ctx) 4
            then 0xff
            else buf c1 ! j)"
    and "msgidx c = msgidx ctx + unat (following_bytes ctx) + 1"
proof -
  note du = do_unsigned_integer_fields [OF ni]
  have u: "do_unsigned_integer ctx = (CBOR_SUCCESS, c1)"
    using du(1) by (simp add: c1_def prod_eq_iff)
  have ds1: "1 \<le> ds" "ds \<le> 8"
    using le8 by (auto simp: ds_def unat_eq_0 Suc_le_eq unat_gt_0)
  have b1: "bufidx c1 = bufidx ctx + ds" using du(3) by (simp add: c1_def ds_def)
  have bs1: "bufsize c1 = bufsize ctx" using du(5) by (simp add: c1_def)
  have len1: "length (buf c1) = length (buf ctx)"
    by (simp add: c1_def do_unsigned_integer_length)
  have fits: "bufidx ctx + ds \<le> bufsize ctx"
    using has_valid_None_fits(1) [OF g v ni] g by (simp add: ds_def)
  define dsw where "dsw = (of_nat (size_sub (bufidx c1) (bufidx ctx)) :: u8)"
  have dsw: "dsw = of_nat ds" by (simp add: dsw_def b1 size_sub_le)
  have udsw: "unat dsw = ds" using ds1 by (simp add: dsw unat_of_nat_u8)
  have umsb: "unat (dsw * 8 - 1) = 8 * ds - 1"
    unfolding dsw using ds1 by (rule unat_msb_bit)
  define V where "V = copy_data_be (replicate 8 0) 0 (buf c1) (bufidx ctx) (unat dsw)"
  have lenV: "length V = 8" by (simp add: V_def)
  have Vn: "V ! k = (if k < ds then buf c1 ! (bufidx ctx + k) else 0)" if "k < 8" for k
    using that by (simp add: V_def copy_data_be_nth udsw)
  define promote where "promote \<longleftrightarrow> unat dsw < 8 \<and> u64_of_bytes V AND push_bit (unat (dsw * 8 - 1)) 1 \<noteq> 0"
  have e: "8 * ds - 1 = 7 + (ds - 1) * 8" using ds1 by arith
  have dm: "(8 * ds - 1) div 8 = ds - 1" "(8 * ds - 1) mod 8 = 7"
    unfolding e by simp_all
  have pr: "promote \<longleftrightarrow> ds < 8 \<and> bit (buf c1 ! (bufidx ctx + ds - 1)) 7"
  proof -
    from ds1 have lt: "8 * ds - 1 < 64" by simp
    from ds1 have k: "ds - 1 < 8" "ds - 1 < ds" by simp_all
    show ?thesis
      unfolding promote_def umsb udsw u64_msb_test [OF lt] dm lenV
      using Vn [OF k(1)] k ds1 by simp
  qed
  have res: "do_negative_integer ctx = (CBOR_SUCCESS,
      (if promote then c1\<lparr>bufidx := bufidx c1 + (unat (push_bit 1 dsw) - unat dsw)\<rparr> else c1)
      \<lparr>buf := copy_data_be
          (fill_ff (buf c1) (bufidx ctx) (min (size_sub (bufsize ctx) (bufidx ctx)) 4))
          (bufidx ctx) (bytes_of_u64 (NOT (u64_of_bytes V))) 0 (unat dsw)\<rparr>)"
  proof (cases promote)
    case True
    then show ?thesis
      unfolding promote_def using u bs1
      by (simp add: do_negative_integer_def Let_def dsw_def [symmetric] V_def [symmetric])
  next
    case False
    then show ?thesis
      unfolding promote_def using u bs1
      by (auto simp add: do_negative_integer_def Let_def dsw_def [symmetric] V_def [symmetric])
  qed
  show "fst (do_negative_integer ctx) = CBOR_SUCCESS" by (simp add: res)
  have "dsw * 2 = of_nat (2 * ds)" by (simp add: dsw mult.commute)
  then have pb: "unat (dsw * 2) = 2 * ds"
    using ds1 by (simp only: unat_of_nat_u8)
  show "bufidx c = bufidx ctx +
           (if ds < 8 \<and> bit (buf c1 ! (bufidx ctx + ds - 1)) 7 then 2 * ds else ds)"
    unfolding c_def res pr [symmetric] by (simp add: b1 pb udsw)
  show "msgidx c = msgidx ctx + unat (following_bytes ctx) + 1"
    unfolding c_def res using du(2) by (simp add: c1_def)
  show "buf c ! j =
           (if bufidx ctx \<le> j \<and> j < bufidx ctx + ds then NOT (buf c1 ! j)
            else if bufidx ctx \<le> j \<and> j < bufidx ctx + min (bufsize ctx - bufidx ctx) 4
            then 0xff
            else buf c1 ! j)" if j: "j < length (buf ctx)"
  proof (cases "bufidx ctx \<le> j \<and> j < bufidx ctx + ds")
    case True
    then have k: "j - bufidx ctx < 8" "j - bufidx ctx < ds" using ds1 by auto
    from True j show ?thesis
      unfolding c_def res
      by (simp add: copy_data_be_nth len1 udsw bytes_of_not_u64_of_bytes [OF k(1) lenV]
          Vn [OF k(1)] k(2))
  next
    case False
    with j g show ?thesis
      unfolding c_def res
      by (auto simp: copy_data_be_nth fill_ff_nth len1 udsw size_sub_le)
  qed
qed

text \<open>
  Claim C10. The negative-integer decoder stores \<open>0xff\<close> into up to four bytes from the
  item's output position, clamped to the remaining capacity, before it writes the value
  back. Every byte from the final write cursor up to the end of that range therefore
  holds \<open>0xff\<close> after the handler, whatever it held before; and there are decode calls
  after which an output byte at or beyond the final write cursor differs from its value
  before the call.
\<close>

theorem negative_integer_prefill_beyond_cursor:
  assumes "bufidx ctx < bufsize ctx" and "bufsize ctx \<le> length (buf ctx)"
    and "has_valid_buffers_for_following_bytes ctx = None"
    and "following_bytes ctx \<noteq> INDEFINITE_VALUE"
    and "unat (following_bytes ctx) \<le> 8"
  shows "(\<forall>j. bufidx (snd (do_negative_integer ctx)) \<le> j \<and>
              j < bufidx ctx + min (bufsize ctx - bufidx ctx) 4 \<longrightarrow>
              buf (snd (do_negative_integer ctx)) ! j = 0xff) \<and>
         (\<exists>lvl out bufsz inp msgsz j.
              bufidx (snd (cbor_decode lvl out bufsz inp msgsz)) \<le> j \<and> j < bufsz \<and>
              buf (snd (cbor_decode lvl out bufsz inp msgsz)) ! j \<noteq> out ! j)"
proof
  define ds where "ds = (if following_bytes ctx = 0 then 1 else unat (following_bytes ctx))"
  note r = do_negative_integer_result [OF assms, folded ds_def]
  show "\<forall>j. bufidx (snd (do_negative_integer ctx)) \<le> j \<and>
              j < bufidx ctx + min (bufsize ctx - bufidx ctx) 4 \<longrightarrow>
              buf (snd (do_negative_integer ctx)) ! j = 0xff"
  proof (intro allI impI)
    fix j
    assume j: "bufidx (snd (do_negative_integer ctx)) \<le> j \<and>
               j < bufidx ctx + min (bufsize ctx - bufidx ctx) 4"
    with r(2) have lo: "bufidx ctx + ds \<le> j" by (simp split: if_splits)
    from j assms(1,2) have "j < length (buf ctx)" by (auto simp: min_def split: if_splits)
    from r(3) [OF this] lo j show "buf (snd (do_negative_integer ctx)) ! j = 0xff"
      by simp
  qed
next
  have "bufidx (snd (cbor_decode 8 [0, 0, 0, 0] 4 [0x20] 1)) \<le> 1 \<and> (1::nat) < 4 \<and>
        buf (snd (cbor_decode 8 [0, 0, 0, 0] 4 [0x20] 1)) ! 1 \<noteq> [0, 0, 0, 0] ! 1"
    by code_simp
  then show "\<exists>lvl out bufsz inp msgsz j.
              bufidx (snd (cbor_decode lvl out bufsz inp msgsz)) \<le> j \<and> j < bufsz \<and>
              buf (snd (cbor_decode lvl out bufsz inp msgsz)) ! j \<noteq> out ! j"
    by blast
qed

theorem negative_integer_prefill_beyond_cursor_witness:
  "bufidx (read_header (initial_context [0, 0, 0, 0] 4 [0x20] 1)) <
     bufsize (read_header (initial_context [0, 0, 0, 0] 4 [0x20] 1)) \<and>
   bufsize (read_header (initial_context [0, 0, 0, 0] 4 [0x20] 1)) \<le>
     length (buf (read_header (initial_context [0, 0, 0, 0] 4 [0x20] 1))) \<and>
   has_valid_buffers_for_following_bytes (read_header (initial_context [0, 0, 0, 0] 4 [0x20] 1)) = None \<and>
   following_bytes (read_header (initial_context [0, 0, 0, 0] 4 [0x20] 1)) \<noteq> INDEFINITE_VALUE \<and>
   unat (following_bytes (read_header (initial_context [0, 0, 0, 0] 4 [0x20] 1))) \<le> 8 \<and>
   bufidx (snd (do_negative_integer (read_header (initial_context [0, 0, 0, 0] 4 [0x20] 1)))) = 1 \<and>
   buf (snd (do_negative_integer (read_header (initial_context [0, 0, 0, 0] 4 [0x20] 1)))) ! 1 = 0xff \<and>
   buf (snd (do_negative_integer (read_header (initial_context [0, 0, 0, 0] 4 [0x20] 1)))) ! 2 = 0xff \<and>
   buf (snd (do_negative_integer (read_header (initial_context [0, 0, 0, 0] 4 [0x20] 1)))) ! 3 = 0xff"
proof -
  define C where "C = read_header (initial_context [0, 0, 0, 0] 4 [0x20] 1)"
  have h: "bufidx C < bufsize C" "bufsize C \<le> length (buf C)"
    "has_valid_buffers_for_following_bytes C = None"
    "following_bytes C \<noteq> INDEFINITE_VALUE" "unat (following_bytes C) \<le> 8"
    unfolding C_def by code_simp+
  have b: "bufidx (snd (do_negative_integer C)) = 1" "bufidx C = 0" "bufsize C = 4"
    unfolding C_def by code_simp+
  from negative_integer_prefill_beyond_cursor [OF h] h b show ?thesis
    unfolding C_def [symmetric] by simp
qed

subsection \<open>A message holding one negative integer\<close>














text \<open>
  The amended claim leaves two cases out. A four-byte \<open>n\<close> with its most significant bit
  set moves the cursor by eight, but the four upper bytes are never written: the
  pre-fill covers the first four bytes only, and the value write-back overwrites exactly
  those. An eight-byte \<open>n\<close> with its most significant bit set is not promoted (the guard
  \<^verbatim>\<open>data_type_size < sizeof(uint64_t)\<close>), and the eight bytes written read as a
  non-negative number.
\<close>

lemma promotion_4_to_8_upper_bytes_not_written:
  "fst (cbor_decode 8 [0, 0, 0, 0, 0, 0, 0, 0] 8 [0x3a, 0x80, 0x00, 0x00, 0x00] 5) = CBOR_SUCCESS \<and>
   bufidx (snd (cbor_decode 8 [0, 0, 0, 0, 0, 0, 0, 0] 8 [0x3a, 0x80, 0x00, 0x00, 0x00] 5)) = 8 \<and>
   buf (snd (cbor_decode 8 [0, 0, 0, 0, 0, 0, 0, 0] 8 [0x3a, 0x80, 0x00, 0x00, 0x00] 5)) =
     [0xff, 0xff, 0xff, 0x7f, 0, 0, 0, 0]"
  by code_simp

lemma no_promotion_at_8_bytes:
  "fst (cbor_decode 8 [0, 0, 0, 0, 0, 0, 0, 0] 8 [0x3b, 0x80, 0, 0, 0, 0, 0, 0, 0] 9) = CBOR_SUCCESS \<and>
   bufidx (snd (cbor_decode 8 [0, 0, 0, 0, 0, 0, 0, 0] 8 [0x3b, 0x80, 0, 0, 0, 0, 0, 0, 0] 9)) = 8 \<and>
   buf (snd (cbor_decode 8 [0, 0, 0, 0, 0, 0, 0, 0] 8 [0x3b, 0x80, 0, 0, 0, 0, 0, 0, 0] 9)) =
     [0xff, 0xff, 0xff, 0xff, 0xff, 0xff, 0xff, 0x7f]"
  by code_simp


subsection \<open>The write cursor and the capacity\<close>




















text \<open>
  The case the amended claim leaves open: the width promotion of the negative-integer
  handler adds to the cursor without looking at the capacity. For \<open>0x38 0x80\<close> and a
  one-byte buffer the cursor ends at 2, beyond the capacity of 1 (the assertion
  \<^verbatim>\<open>ctx->bufidx <= ctx->bufsize\<close> at the end of \<^verbatim>\<open>decode_cbor\<close> does not hold), and the
  entry point returns Success although the two-byte result did not fit. No byte is
  stored beyond the capacity.
\<close>

lemma cursor_exceeds_capacity_after_promotion:
  "fst (cbor_decode 8 [0] 1 [0x38, 0x80] 2) = CBOR_SUCCESS \<and>
   bufidx (snd (cbor_decode 8 [0] 1 [0x38, 0x80] 2)) = 2 \<and>
   bufsize (snd (cbor_decode 8 [0] 1 [0x38, 0x80] 2)) = 1"
  by code_simp

end
